theory Spec2Isabelle
  imports Main "HOL-Library.Word"
begin

section \<open>JavaScript strings\<close>

text \<open>
  A JavaScript string is a sequence of UTF-16 code units: \<open>length\<close>, \<open>substring\<close>,
  \<open>includes\<close> and a regular expression without the \<open>u\<close> flag all work on code units.
  \<open>str\<close> turns a literal of the theory into such a string.
\<close>

type_synonym code_unit = "16 word"
type_synonym jstring = "code_unit list"

definition str :: "string \<Rightarrow> jstring" where
  "str s = map (\<lambda>c. of_nat (of_char c)) s"

definition dquote :: code_unit where "dquote = 0x22"
definition comma :: code_unit where "comma = 0x2C"
definition newline :: code_unit where "newline = 0x0A"
definition slash :: code_unit where "slash = 0x2F"
definition dash :: code_unit where "dash = 0x2D"
definition dot :: code_unit where "dot = 0x2E"

section \<open>CSV escaping (wave-test.ts, escapeCSV)\<close>

text \<open>\<open>stringField.replace(/"/g, '""')\<close>: every double quote becomes two.\<close>

fun replace_dquotes :: "jstring \<Rightarrow> jstring" where
  "replace_dquotes [] = []"
| "replace_dquotes (c # cs) =
     (if c = dquote then dquote # dquote # replace_dquotes cs else c # replace_dquotes cs)"

text \<open>
  The field is \<open>string | null | undefined\<close>: \<open>None\<close> stands for \<open>null\<close> and
  \<open>undefined\<close>, which the function treats alike. \<open>String(field)\<close> is the identity on a
  string, and \<open>includes\<close> of a one-character string is membership.
\<close>

definition escapeCSV :: "jstring option \<Rightarrow> jstring" where
  "escapeCSV field =
     (case field of
        None \<Rightarrow> [dquote, dquote]
      | Some stringField \<Rightarrow>
          if dquote \<in> set stringField \<or> comma \<in> set stringField \<or> newline \<in> set stringField
          then [dquote] @ replace_dquotes stringField @ [dquote]
          else stringField)"

section \<open>Output file names (wave-test.ts, generateFilename)\<close>

text \<open>\<open>url.replace(/^https?:\/\//, '')\<close>: the pattern is anchored and case sensitive.\<close>

definition strip_protocol :: "jstring \<Rightarrow> jstring" where
  "strip_protocol url =
     (if take 7 url = str ''http://'' then drop 7 url
      else if take 8 url = str ''https://'' then drop 8 url
      else url)"

text \<open>\<open>filename.replace(/\/$/, '')\<close>: without the \<open>m\<close> flag, \<open>$\<close> is the end of the string.\<close>

definition strip_trailing_slash :: "jstring \<Rightarrow> jstring" where
  "strip_trailing_slash s = (if s \<noteq> [] \<and> last s = slash then butlast s else s)"

text \<open>The character class \<open>[a-zA-Z0-9]\<close>, on code units.\<close>

definition is_alnum :: "code_unit \<Rightarrow> bool" where
  "is_alnum c \<longleftrightarrow>
     (0x61 \<le> c \<and> c \<le> 0x7A) \<or> (0x41 \<le> c \<and> c \<le> 0x5A) \<or> (0x30 \<le> c \<and> c \<le> 0x39)"

text \<open>\<open>filename.replace(/[^a-zA-Z0-9]/g, '-')\<close>.\<close>

definition replace_special :: "jstring \<Rightarrow> jstring" where
  "replace_special s = map (\<lambda>c. if is_alnum c then c else dash) s"

text \<open>
  \<open>s.substring(0, n)\<close> for a number \<open>n\<close> that may be negative: \<open>substring\<close> treats a
  negative end as 0 and an end beyond the string as its length.
\<close>

definition substring0 :: "jstring \<Rightarrow> int \<Rightarrow> jstring" where
  "substring0 s n = (if n < 0 then [] else take (nat n) s)"

definition maxBaseLength :: "jstring \<Rightarrow> int" where
  "maxBaseLength extension = 200 - int (length extension) - 1"

definition filename_prefix :: jstring where
  "filename_prefix = str ''accessibility-results-''"

definition generateFilename :: "jstring \<Rightarrow> jstring \<Rightarrow> jstring" where
  "generateFilename url extension =
     (let filename = strip_protocol url;
          filename = strip_trailing_slash filename;
          filename = replace_special filename;
          filename = (if int (length filename) > maxBaseLength extension
                      then substring0 filename (maxBaseLength extension)
                      else filename)
      in filename_prefix @ filename @ [dot] @ extension)"

section \<open>The analyzer's results (wave-test.ts, interfaces WaveRuleData and WaveCategory)\<close>

text \<open>
  Values the enhancer only moves around (the entries of \<open>selectors\<close>, \<open>text\<close>, \<open>hidden\<close>,
  \<open>contrastdata\<close> and \<open>domInfo\<close>) are JSON values. A number is modelled as an integer.
\<close>

datatype jsval =
    JNull
  | JBool bool
  | JNum int
  | JStr jstring
  | JArr "jsval list"
  | JObj "(jstring \<times> jsval) list"

text \<open>
  A rule group. A field the code tests before use is optional here: \<open>None\<close> is a field that
  is absent (or, for the arrays, not an array). \<open>rule_count\<close> is the field \<open>count\<close> and
  \<open>texts\<close> is the field \<open>text\<close>.
\<close>

record WaveRuleData =
  rule_count :: "int option"
  xpaths :: "jstring list option"
  selectors :: "jsval list option"
  texts :: "jsval list option"
  hidden :: "jsval list option"
  description :: "jstring option"
  domInfo :: "jsval list option"
  contrastdata :: "jsval list option"

text \<open>
  A category: \<open>cat_count\<close> is its field \<open>count\<close>; \<open>items\<close> maps rule identifiers to rule
  groups, as the list of the object's properties in enumeration order.
\<close>

record WaveCategory =
  cat_count :: "int option"
  items :: "(jstring \<times> WaveRuleData) list option"

text \<open>The object \<open>wave.fn.run()\<close> resolves to: categories by name, and the statistics.\<close>

record WaveRaw =
  categories :: "(jstring \<times> WaveCategory) list option"
  statistics :: "jsval option"

section \<open>The in-page result enhancer (enhanceResultsWithDOMInfo)\<close>

subsection \<open>DOM lookups (getElementInfo)\<close>

text \<open>
  The document is read, never written. For one XPath, the body of the \<open>try\<close> block of
  \<open>getElementInfo\<close> ends in one of three ways: \<open>document.evaluate\<close> finds no node and the
  body returns \<open>null\<close>; the body returns the object literal describing the element (its
  properties are given); or something in the body throws an error with a message.
\<close>

datatype try_outcome =
    NoElement
  | Info "(jstring \<times> jsval) list"
  | Throws jstring

type_synonym document = "jstring \<Rightarrow> try_outcome"

definition error_marker :: "jstring \<Rightarrow> jsval" where
  "error_marker message = JObj [(str ''error'', JStr message)]"

definition getElementInfo :: "document \<Rightarrow> jstring \<Rightarrow> jsval" where
  "getElementInfo doc xpath =
     (case doc xpath of
        NoElement \<Rightarrow> JNull
      | Info props \<Rightarrow> JObj props
      | Throws message \<Rightarrow> error_marker message)"

subsection \<open>Deduplication\<close>

text \<open>
  \<open>[...new Set(item.xpaths)]\<close>: the constructor adds the elements one by one, an element
  already in the set is not added again, and the set iterates in insertion order.
\<close>

definition set_add :: "'a list \<Rightarrow> 'a \<Rightarrow> 'a list" where
  "set_add s x = (if x \<in> set s then s else s @ [x])"

definition new_Set :: "'a list \<Rightarrow> 'a list" where
  "new_Set xs = foldl set_add [] xs"

text \<open>\<open>a.slice(0, n)\<close> for \<open>n\<close> a length.\<close>

definition slice0 :: "'a list \<Rightarrow> nat \<Rightarrow> 'a list" where
  "slice0 a n = take n a"

subsection \<open>One rule group\<close>

definition enhance_item :: "document \<Rightarrow> WaveRuleData \<Rightarrow> WaveRuleData" where
  "enhance_item doc item =
     (case xpaths item of
        None \<Rightarrow> item
      | Some xs \<Rightarrow>
          let uniqueXPaths = new_Set xs;
              n = length uniqueXPaths
          in item
             \<lparr> rule_count := Some (int n),
               xpaths := Some uniqueXPaths,
               selectors := map_option (\<lambda>a. slice0 a n) (selectors item),
               texts := map_option (\<lambda>a. slice0 a n) (texts item),
               hidden := map_option (\<lambda>a. slice0 a n) (hidden item),
               domInfo := Some (filter (\<lambda>info. info \<noteq> JNull)
                                       (map (getElementInfo doc) uniqueXPaths)),
               contrastdata := map_option (\<lambda>a. slice0 a n) (contrastdata item) \<rparr>)"

subsection \<open>The two passes over the retained categories\<close>

definition enhance_items :: "document \<Rightarrow> WaveCategory \<Rightarrow> WaveCategory" where
  "enhance_items doc category =
     (case items category of
        None \<Rightarrow> category
      | Some its \<Rightarrow>
          category \<lparr> items := Some (map (\<lambda>(itemKey, item). (itemKey, enhance_item doc item)) its) \<rparr>)"

text \<open>\<open>item.count || 0\<close>: an absent count, and the count 0, contribute 0.\<close>

definition count_or_0 :: "WaveRuleData \<Rightarrow> int" where
  "count_or_0 item = (case rule_count item of None \<Rightarrow> 0 | Some c \<Rightarrow> if c = 0 then 0 else c)"

definition recalculate_count :: "WaveCategory \<Rightarrow> WaveCategory" where
  "recalculate_count category =
     (case items category of
        None \<Rightarrow> category
      | Some its \<Rightarrow>
          category \<lparr> cat_count := Some (foldl (\<lambda>total item. total + count_or_0 item) 0 (map snd its)) \<rparr>)"

subsection \<open>The enhancer\<close>

definition key_error :: jstring where "key_error = str ''error''"
definition key_contrast :: jstring where "key_contrast = str ''contrast''"

definition filteredCategories :: "WaveRaw \<Rightarrow> (jstring \<times> WaveCategory) list" where
  "filteredCategories enhanced =
     (case categories enhanced of
        None \<Rightarrow> []
      | Some cats \<Rightarrow>
          (case map_of cats key_error of None \<Rightarrow> [] | Some c \<Rightarrow> [(key_error, c)]) @
          (case map_of cats key_contrast of None \<Rightarrow> [] | Some c \<Rightarrow> [(key_contrast, c)]))"

text \<open>
  \<open>JSON.parse(JSON.stringify(results))\<close> builds a copy with the same fields and values;
  the function works on the copy and returns it.
\<close>

definition enhanceResultsWithDOMInfo :: "document \<Rightarrow> WaveRaw \<Rightarrow> WaveRaw" where
  "enhanceResultsWithDOMInfo doc results =
     (let enhanced = results;
          filtered = filteredCategories enhanced;
          filtered = map (\<lambda>(categoryKey, category). (categoryKey, enhance_items doc category)) filtered;
          filtered = map (\<lambda>(categoryKey, category). (categoryKey, recalculate_count category)) filtered
      in enhanced \<lparr> categories := Some filtered \<rparr>)"

text \<open>The rule group stored under a category name and a rule identifier, if any.\<close>

definition rule_at :: "WaveRaw \<Rightarrow> jstring \<Rightarrow> jstring \<Rightarrow> WaveRuleData option" where
  "rule_at r categoryKey itemKey =
     (case categories r of
        None \<Rightarrow> None
      | Some cats \<Rightarrow>
          (case map_of cats categoryKey of
             None \<Rightarrow> None
           | Some category \<Rightarrow>
               (case items category of None \<Rightarrow> None | Some its \<Rightarrow> map_of its itemKey)))"

definition category_at :: "WaveRaw \<Rightarrow> jstring \<Rightarrow> WaveCategory option" where
  "category_at r categoryKey =
     (case categories r of None \<Rightarrow> None | Some cats \<Rightarrow> map_of cats categoryKey)"

text \<open>The position of the first occurrence of \<open>x\<close> in \<open>xs\<close>.\<close>

definition first_index :: "'a list \<Rightarrow> 'a \<Rightarrow> nat" where
  "first_index xs x = length (takeWhile (\<lambda>y. y \<noteq> x) xs)"

text \<open>The elements of \<open>xs\<close> that are not in \<open>seen\<close>, each at its first occurrence.\<close>

fun unseen :: "'a set \<Rightarrow> 'a list \<Rightarrow> 'a list" where
  "unseen seen [] = []"
| "unseen seen (x # xs) = (if x \<in> seen then unseen seen xs else x # unseen (insert x seen) xs)"

subsection \<open>A sample page and a sample raw result\<close>

text \<open>
  In the sample document \<open>/html/body/img\<close> is an image, \<open>/html/body/p\<close> resolves to no
  node, and every other expression makes \<open>document.evaluate\<close> throw.
\<close>

definition sample_doc :: document where
  "sample_doc xpath =
     (if xpath = str ''/html/body/img'' then Info [(str ''tagName'', JStr (str ''IMG''))]
      else if xpath = str ''/html/body/p'' then NoElement
      else Throws (str ''invalid expression''))"

definition no_item :: WaveRuleData where
  "no_item = \<lparr> rule_count = None, xpaths = None, selectors = None, texts = None,
               hidden = None, description = None, domInfo = None, contrastdata = None \<rparr>"

text \<open>
  Three reported instances, two of them at the same XPath, with one selector and one
  \<open>hidden\<close> flag per reported instance.
\<close>

definition sample_alt_missing :: WaveRuleData where
  "sample_alt_missing =
     no_item \<lparr> rule_count := Some 3,
               xpaths := Some [str ''/html/body/img'', str ''/html/body/img'', str ''/html/body/p''],
               selectors := Some [JStr (str ''img.a''), JStr (str ''img.b''), JStr (str ''p'')],
               hidden := Some [JBool False, JBool False, JBool True] \<rparr>"

definition sample_broken :: WaveRuleData where
  "sample_broken =
     no_item \<lparr> rule_count := Some 2,
               xpaths := Some [str ''/html/body/p'', str ''//div[''] \<rparr>"

definition sample_raw :: WaveRaw where
  "sample_raw =
     \<lparr> categories = Some
         [ (str ''alert'', \<lparr> cat_count = Some 7, items = Some [] \<rparr>),
           (str ''error'', \<lparr> cat_count = Some 5,
                              items = Some [ (str ''alt_missing'', sample_alt_missing),
                                             (str ''label_missing'', sample_broken),
                                             (str ''legacy'', no_item \<lparr> rule_count := Some 4 \<rparr>) ] \<rparr>) ],
       statistics = None \<rparr>"

subsection \<open>The reader of \<open>domInfo\<close> (wave-test.ts, the rows of the CSV file)\<close>

text \<open>
  The CSV builder goes through the deduplicated XPaths of a rule with their index and reads
  \<open>rule.domInfo?.[index]\<close> for the row of the XPath at that index: \<open>None\<close> is the
  \<open>undefined\<close> of an absent \<open>domInfo\<close> or of an index beyond its end.
\<close>

definition domInfo_at :: "WaveRuleData \<Rightarrow> nat \<Rightarrow> jsval option" where
  "domInfo_at rule index =
     (case domInfo rule of
        None \<Rightarrow> None
      | Some infos \<Rightarrow> if index < length infos then Some (infos ! index) else None)"

text \<open>
  A raw result with one rule of three XPaths: in the sample document the first resolves to
  no element, the second is the image, and the third makes the lookup throw.
\<close>

definition sample_missing_first :: WaveRuleData where
  "sample_missing_first =
     no_item \<lparr> rule_count := Some 3,
               xpaths := Some [str ''/html/body/p'', str ''/html/body/img'', str ''//div[''] \<rparr>"

definition sample_raw_missing_first :: WaveRaw where
  "sample_raw_missing_first =
     \<lparr> categories = Some
         [ (str ''error'', \<lparr> cat_count = Some 3,
                              items = Some [ (str ''alt_missing'', sample_missing_first) ] \<rparr>) ],
       statistics = None \<rparr>"

section \<open>The batch orchestrator (analyzer.js)\<close>

text \<open>
  What happens inside the \<open>try\<close> block of \<open>_processUrlWithRetry\<close> (the analysis of the
  page and the writing of its report) is given by the world: for the URL at position
  \<open>current\<close> of the batch and the attempt number \<open>attempt\<close> (from 0), either something
  throws an error with a message, or the block reaches its \<open>return\<close> with a report.
\<close>

type_synonym world = "nat \<Rightarrow> nat \<Rightarrow> jstring + jsval"

record url_result =
  url :: jstring
  success :: bool
  report :: "jsval option"
  error :: "jstring option"
  attempts :: nat

text \<open>
  The \<open>while\<close> loop, entered with the current value of \<open>attempt\<close>. \<open>None\<close> is the
  \<open>undefined\<close> the function returns when the loop ends without a \<open>return\<close>. The delays
  between attempts only pass time.
\<close>

function retry_loop :: "world \<Rightarrow> int \<Rightarrow> jstring \<Rightarrow> nat \<Rightarrow> nat \<Rightarrow> url_result option" where
  "retry_loop w maxRetries u current attempt =
     (if int attempt < maxRetries then
        (case w current attempt of
           Inr rep \<Rightarrow>
             Some \<lparr> url = u, success = True, report = Some rep, error = None,
                    attempts = attempt + 1 \<rparr>
         | Inl message \<Rightarrow>
             if int (attempt + 1) \<ge> maxRetries
             then Some \<lparr> url = u, success = False, report = None, error = Some message,
                         attempts = attempt + 1 \<rparr>
             else retry_loop w maxRetries u current (attempt + 1))
      else None)"
  by pat_completeness auto
termination
  by (relation "measure (\<lambda>(w, maxRetries, u, current, attempt). nat (maxRetries - int attempt))") auto

definition processUrlWithRetry :: "world \<Rightarrow> int \<Rightarrow> jstring \<Rightarrow> nat \<Rightarrow> url_result option" where
  "processUrlWithRetry w maxRetries u current = retry_loop w maxRetries u current 0"

text \<open>The \<open>for\<close> loop of \<open>analyzeBatch\<close>, entered with the index \<open>i\<close> of the first URL left.\<close>

fun batch_loop :: "world \<Rightarrow> int \<Rightarrow> nat \<Rightarrow> jstring list \<Rightarrow> url_result option list" where
  "batch_loop w maxRetries i [] = []"
| "batch_loop w maxRetries i (u # us) =
     processUrlWithRetry w maxRetries u (i + 1) # batch_loop w maxRetries (i + 1) us"

text \<open>
  The summary, without its time stamps, its success rate and the statistics aggregated from
  the reports. Reading \<open>r.success\<close> of an \<open>undefined\<close> result throws a TypeError.
\<close>

record batch_summary =
  totalUrls :: nat
  successful :: nat
  failed :: nat

datatype batch_error = TypeError

definition createBatchSummary :: "url_result option list \<Rightarrow> nat \<Rightarrow> batch_error + batch_summary" where
  "createBatchSummary results total_urls =
     (if None \<in> set results then Inl TypeError
      else Inr \<lparr> totalUrls = total_urls,
                 successful = length (filter (\<lambda>r. success (the r)) results),
                 failed = length (filter (\<lambda>r. \<not> success (the r)) results) \<rparr>)"

definition analyzeBatch :: "world \<Rightarrow> int \<Rightarrow> jstring list \<Rightarrow> batch_error + (url_result option list \<times> batch_summary)" where
  "analyzeBatch w maxRetries urls =
     (let results = batch_loop w maxRetries 0 urls
      in case createBatchSummary results (length urls) of
           Inl e \<Rightarrow> Inl e
         | Inr batchSummary \<Rightarrow> Inr (results, batchSummary))"

text \<open>A world where the second URL of the batch fails at every attempt and the others succeed.\<close>

definition sample_world :: world where
  "sample_world current attempt =
     (if current = 2 then Inl (str ''Failed to analyze: timeout '' @ [of_nat (48 + attempt)])
      else Inr JNull)"

section \<open>The polling initializer (checkWaveAvailability)\<close>

text \<open>
  What a call of \<open>checkWaveAvailability\<close> finds in the page: whether \<open>window.wave\<close> and
  \<open>window.wave.fn\<close> are there, whether \<open>document.readyState\<close> is \<open>complete\<close>, whether body
  (with its style) and head exist, whether reading \<open>document.body.style.display\<close> throws,
  whether \<open>wave.fn.initialize()\<close> throws (and with which message), and what
  \<open>wave.fn.run()\<close> does.
\<close>

datatype run_outcome =
    RunThrows jstring
  | RunRejects jstring
  | RunResolves WaveRaw
  | RunPending

record page_state =
  wave_present :: bool
  readyState_complete :: bool
  body_and_head :: bool
  style_probe :: "jstring option"
  initialize :: "jstring option"
  run :: run_outcome

text \<open>
  The messages of the rejections:
  \<open>WAVE initialization failed: m\<close>, \<open>WAVE initialization failed after retries: m\<close>,
  \<open>WAVE process failed: m\<close>, \<open>WAVE analysis execution failed: m\<close> and
  \<open>WAVE failed to initialize after n attempts\<close>.
\<close>

datatype failure =
    InitializationFailed jstring
  | InitializationFailedAfterRetries jstring
  | ProcessFailed jstring
  | AnalysisExecutionFailed jstring
  | FailedToInitialize int

text \<open>How the promise is settled; analyzer.js reports the number of attempts.\<close>

datatype settled =
    Resolved WaveRaw
  | ResolvedAfter WaveRaw nat
  | Rejected failure

text \<open>
  A run of the initializer, from its first call after the script is injected, gives the
  delays of the timers it has set, in order, and how the promise was settled; \<open>None\<close> is a
  promise that is not settled. \<open>page k\<close> is the page as the \<open>k\<close>-th call finds it.
\<close>

type_synonym poll = "int list \<times> settled option"

definition after_delay :: "int \<Rightarrow> poll \<Rightarrow> poll" where
  "after_delay delay p = (delay # fst p, snd p)"

subsection \<open>analyzer.js\<close>

text \<open>
  \<open>tries\<close> is the counter \<open>attempts\<close> before the call increments it. A throw of \<open>initialize()\<close>,
  or of the call of \<open>run()\<close>, is caught by the same handler.
\<close>

function checkWaveAvailability_analyzer ::
  "(nat \<Rightarrow> page_state) \<Rightarrow> document \<Rightarrow> int \<Rightarrow> int \<Rightarrow> nat \<Rightarrow> poll" where
  "checkWaveAvailability_analyzer page doc config_maxRetries config_retryDelay tries =
     (if wave_present (page (tries + 1)) then
        (case initialize (page (tries + 1)) of
           Some message \<Rightarrow> ([], Some (Rejected (InitializationFailed message)))
         | None \<Rightarrow>
             (case run (page (tries + 1)) of
                RunThrows message \<Rightarrow> ([], Some (Rejected (InitializationFailed message)))
              | RunRejects message \<Rightarrow> ([], Some (Rejected (AnalysisExecutionFailed message)))
              | RunResolves results \<Rightarrow>
                  ([], Some (ResolvedAfter (enhanceResultsWithDOMInfo doc results) (tries + 1)))
              | RunPending \<Rightarrow> ([], None)))
      else if int (tries + 1) \<ge> config_maxRetries then
        ([], Some (Rejected (FailedToInitialize config_maxRetries)))
      else
        after_delay config_retryDelay
          (checkWaveAvailability_analyzer page doc config_maxRetries config_retryDelay (tries + 1)))"
  by pat_completeness auto
termination
  by (relation "measure (\<lambda>(page, doc, config_maxRetries, config_retryDelay, tries).
                           nat (config_maxRetries - int tries))") auto

subsection \<open>wave-test.ts\<close>

definition wave_test_maxRetries :: nat where "wave_test_maxRetries = 100"
definition wave_test_retryDelay :: int where "wave_test_retryDelay = 200"

text \<open>
  The rescheduling when the document is not ready does not look at the counter, so
  the polling may go on forever: the function takes the number of calls it may still make,
  and a run that needs more calls has not settled the promise.
\<close>

fun checkWaveAvailability_test :: "nat \<Rightarrow> (nat \<Rightarrow> page_state) \<Rightarrow> document \<Rightarrow> nat \<Rightarrow> poll" where
  "checkWaveAvailability_test 0 page doc tries = ([], None)"
| "checkWaveAvailability_test (Suc calls) page doc tries =
     (if wave_present (page (tries + 1)) then
        if \<not> readyState_complete (page (tries + 1)) then
          after_delay wave_test_retryDelay (checkWaveAvailability_test calls page doc (tries + 1))
        else if \<not> body_and_head (page (tries + 1)) then
          after_delay wave_test_retryDelay (checkWaveAvailability_test calls page doc (tries + 1))
        else
          (case style_probe (page (tries + 1)) of
             Some styleError \<Rightarrow>
               after_delay wave_test_retryDelay (checkWaveAvailability_test calls page doc (tries + 1))
           | None \<Rightarrow>
               (case initialize (page (tries + 1)) of
                  Some message \<Rightarrow>
                    if tries + 1 < wave_test_maxRetries then
                      after_delay (wave_test_retryDelay * 2)
                        (checkWaveAvailability_test calls page doc (tries + 1))
                    else ([], Some (Rejected (InitializationFailedAfterRetries message)))
                | None \<Rightarrow>
                    (case run (page (tries + 1)) of
                       RunThrows message \<Rightarrow>
                         if tries + 1 < wave_test_maxRetries then
                           after_delay (wave_test_retryDelay * 2)
                             (checkWaveAvailability_test calls page doc (tries + 1))
                         else ([], Some (Rejected (ProcessFailed message)))
                     | RunRejects message \<Rightarrow> ([], Some (Rejected (AnalysisExecutionFailed message)))
                     | RunResolves results \<Rightarrow>
                         ([], Some (Resolved (enhanceResultsWithDOMInfo doc results)))
                     | RunPending \<Rightarrow> ([], None))))
      else if tries + 1 \<ge> wave_test_maxRetries then
        ([], Some (Rejected (FailedToInitialize (int wave_test_maxRetries))))
      else
        after_delay wave_test_retryDelay (checkWaveAvailability_test calls page doc (tries + 1)))"

text \<open>Sample pages: the library never appears; the library is there and \<open>initialize\<close> throws.\<close>

definition page_without_wave :: page_state where
  "page_without_wave =
     \<lparr> wave_present = False, readyState_complete = True, body_and_head = True,
       style_probe = None, initialize = None, run = RunPending \<rparr>"

definition page_init_throws :: page_state where
  "page_init_throws = page_without_wave \<lparr> wave_present := True, initialize := Some (str ''boom'') \<rparr>"

text \<open>
  A page where the call gets as far as \<open>wave.fn.initialize()\<close>, which throws an error with
  the given message.
\<close>

definition ready_init_throws :: "page_state \<Rightarrow> jstring \<Rightarrow> bool" where
  "ready_init_throws st message \<longleftrightarrow>
     wave_present st \<and> readyState_complete st \<and> body_and_head st \<and> style_probe st = None \<and>
     initialize st = Some message"

text \<open>Two pages that never change.\<close>

definition always_init_throws :: "nat \<Rightarrow> page_state" where
  "always_init_throws k = page_init_throws"

definition never_with_wave :: "nat \<Rightarrow> page_state" where
  "never_with_wave k = page_without_wave"

section \<open>The enhancer on the heap\<close>

text \<open>
  Objects that the enhancer assigns to live in a heap, at addresses: the result object, the
  category objects and the rule groups. An object \<open>categories\<close> or \<open>items\<close> is the list of
  its properties, each the address of a category or of a rule group; the enhancer never
  assigns to a property of such an object, nor to an element of an array, so these are
  values. Two properties may hold the same address.
\<close>

type_synonym addr = nat

record category_object =
  count_field :: "int option"
  items_field :: "(jstring \<times> addr) list option"

record results_object =
  categories_field :: "(jstring \<times> addr) list option"
  statistics_field :: "jsval option"

record heap =
  rule_objects :: "addr \<Rightarrow> WaveRuleData"
  category_objects :: "addr \<Rightarrow> category_object"
  results_objects :: "addr \<Rightarrow> results_object"
  next_free :: addr

subsection \<open>\<open>JSON.stringify\<close>: reading a tree out of the heap\<close>

definition stringify_category :: "heap \<Rightarrow> addr \<Rightarrow> WaveCategory" where
  "stringify_category h c =
     \<lparr> cat_count = count_field (category_objects h c),
       items = map_option (map (\<lambda>(itemKey, i). (itemKey, rule_objects h i)))
                 (items_field (category_objects h c)) \<rparr>"

definition stringify_results :: "heap \<Rightarrow> addr \<Rightarrow> WaveRaw" where
  "stringify_results h r =
     \<lparr> categories = map_option (map (\<lambda>(categoryKey, c). (categoryKey, stringify_category h c)))
                      (categories_field (results_objects h r)),
       statistics = statistics_field (results_objects h r) \<rparr>"

subsection \<open>\<open>JSON.parse\<close>: building new objects\<close>

definition new_rule :: "WaveRuleData \<Rightarrow> heap \<Rightarrow> addr \<times> heap" where
  "new_rule item h =
     (next_free h,
      h \<lparr> rule_objects := (rule_objects h)(next_free h := item), next_free := next_free h + 1 \<rparr>)"

fun parse_items :: "(jstring \<times> WaveRuleData) list \<Rightarrow> heap \<Rightarrow> (jstring \<times> addr) list \<times> heap" where
  "parse_items [] h = ([], h)"
| "parse_items ((itemKey, item) # rest) h =
     (let (i, h) = new_rule item h;
          (refs, h) = parse_items rest h
      in ((itemKey, i) # refs, h))"

definition new_category :: "category_object \<Rightarrow> heap \<Rightarrow> addr \<times> heap" where
  "new_category obj h =
     (next_free h,
      h \<lparr> category_objects := (category_objects h)(next_free h := obj), next_free := next_free h + 1 \<rparr>)"

definition parse_category :: "WaveCategory \<Rightarrow> heap \<Rightarrow> addr \<times> heap" where
  "parse_category category h =
     (case items category of
        None \<Rightarrow> new_category \<lparr> count_field = cat_count category, items_field = None \<rparr> h
      | Some its \<Rightarrow>
          (let (refs, h) = parse_items its h
           in new_category \<lparr> count_field = cat_count category, items_field = Some refs \<rparr> h))"

fun parse_categories :: "(jstring \<times> WaveCategory) list \<Rightarrow> heap \<Rightarrow> (jstring \<times> addr) list \<times> heap" where
  "parse_categories [] h = ([], h)"
| "parse_categories ((categoryKey, category) # rest) h =
     (let (c, h) = parse_category category h;
          (refs, h) = parse_categories rest h
      in ((categoryKey, c) # refs, h))"

definition new_results :: "results_object \<Rightarrow> heap \<Rightarrow> addr \<times> heap" where
  "new_results obj h =
     (next_free h,
      h \<lparr> results_objects := (results_objects h)(next_free h := obj), next_free := next_free h + 1 \<rparr>)"

definition parse_results :: "WaveRaw \<Rightarrow> heap \<Rightarrow> addr \<times> heap" where
  "parse_results r h =
     (case categories r of
        None \<Rightarrow> new_results \<lparr> categories_field = None, statistics_field = statistics r \<rparr> h
      | Some cats \<Rightarrow>
          (let (refs, h) = parse_categories cats h
           in new_results \<lparr> categories_field = Some refs, statistics_field = statistics r \<rparr> h))"

subsection \<open>The enhancer, assigning to the objects of the heap\<close>

text \<open>The assignments to the fields of one rule group.\<close>

definition enhance_item_at :: "document \<Rightarrow> addr \<Rightarrow> heap \<Rightarrow> heap" where
  "enhance_item_at doc i h =
     h \<lparr> rule_objects := (rule_objects h)(i := enhance_item doc (rule_objects h i)) \<rparr>"

definition enhance_items_at :: "document \<Rightarrow> addr \<Rightarrow> heap \<Rightarrow> heap" where
  "enhance_items_at doc c h =
     (case items_field (category_objects h c) of
        None \<Rightarrow> h
      | Some refs \<Rightarrow> foldl (\<lambda>h (itemKey, i). enhance_item_at doc i h) h refs)"

definition recalculate_count_at :: "addr \<Rightarrow> heap \<Rightarrow> heap" where
  "recalculate_count_at c h =
     (case items_field (category_objects h c) of
        None \<Rightarrow> h
      | Some refs \<Rightarrow>
          h \<lparr> category_objects := (category_objects h)
                (c := (category_objects h c)
                   \<lparr> count_field :=
                       Some (foldl (\<lambda>total item. total + count_or_0 item) 0
                               (map (\<lambda>(itemKey, i). rule_objects h i) refs)) \<rparr>) \<rparr>)"

definition filtered_refs :: "heap \<Rightarrow> addr \<Rightarrow> (jstring \<times> addr) list" where
  "filtered_refs h enhanced =
     (case categories_field (results_objects h enhanced) of
        None \<Rightarrow> []
      | Some cats \<Rightarrow>
          (case map_of cats key_error of None \<Rightarrow> [] | Some c \<Rightarrow> [(key_error, c)]) @
          (case map_of cats key_contrast of None \<Rightarrow> [] | Some c \<Rightarrow> [(key_contrast, c)]))"

text \<open>
  The function gets the address of the raw result and returns the address of the enhanced
  one, with the heap it leaves.
\<close>

definition enhance_in_heap :: "document \<Rightarrow> addr \<Rightarrow> heap \<Rightarrow> addr \<times> heap" where
  "enhance_in_heap doc results h =
     (let (enhanced, h) = parse_results (stringify_results h results) h;
          filtered = filtered_refs h enhanced;
          h = foldl (\<lambda>h (categoryKey, c). enhance_items_at doc c h) h filtered;
          h = foldl (\<lambda>h (categoryKey, c). recalculate_count_at c h) h filtered;
          h = h \<lparr> results_objects := (results_objects h)
                   (enhanced := (results_objects h enhanced) \<lparr> categories_field := Some filtered \<rparr>) \<rparr>
      in (enhanced, h))"

subsection \<open>Predicates on heaps\<close>

text \<open>Nothing below \<open>n\<close> differs between two heaps.\<close>

definition same_below :: "addr \<Rightarrow> heap \<Rightarrow> heap \<Rightarrow> bool" where
  "same_below n h h' \<longleftrightarrow>
     (\<forall>a < n. rule_objects h' a = rule_objects h a \<and>
              category_objects h' a = category_objects h a \<and>
              results_objects h' a = results_objects h a)"

text \<open>The objects a result refers to are objects of the heap.\<close>

definition category_allocated :: "heap \<Rightarrow> addr \<Rightarrow> bool" where
  "category_allocated h c \<longleftrightarrow>
     c < next_free h \<and>
     (case items_field (category_objects h c) of
        None \<Rightarrow> True
      | Some refs \<Rightarrow> list_all (\<lambda>(itemKey, i). i < next_free h) refs)"

definition results_allocated :: "heap \<Rightarrow> addr \<Rightarrow> bool" where
  "results_allocated h r \<longleftrightarrow>
     r < next_free h \<and>
     (case categories_field (results_objects h r) of
        None \<Rightarrow> True
      | Some refs \<Rightarrow> list_all (\<lambda>(categoryKey, c). category_allocated h c) refs)"

text \<open>Objects built since the heap had \<open>n\<close> objects refer to such objects only.\<close>

definition fresh_category :: "addr \<Rightarrow> heap \<Rightarrow> addr \<Rightarrow> bool" where
  "fresh_category n h c \<longleftrightarrow>
     n \<le> c \<and> c < next_free h \<and>
     (case items_field (category_objects h c) of
        None \<Rightarrow> True
      | Some refs \<Rightarrow> list_all (\<lambda>(itemKey, i). n \<le> i \<and> i < next_free h) refs)"

definition fresh_results :: "addr \<Rightarrow> heap \<Rightarrow> addr \<Rightarrow> bool" where
  "fresh_results n h r \<longleftrightarrow>
     n \<le> r \<and> r < next_free h \<and>
     (case categories_field (results_objects h r) of
        None \<Rightarrow> True
      | Some refs \<Rightarrow> list_all (\<lambda>(categoryKey, c). fresh_category n h c) refs)"

text \<open>Two heaps with the same objects \<open>categories\<close> and \<open>items\<close>.\<close>

definition same_shape :: "heap \<Rightarrow> heap \<Rightarrow> bool" where
  "same_shape h h' \<longleftrightarrow>
     next_free h' = next_free h \<and>
     results_objects h' = results_objects h \<and>
     (\<forall>c. items_field (category_objects h' c) = items_field (category_objects h c))"

text \<open>The rule groups of a category object, and categories that share no object.\<close>

definition item_addrs :: "heap \<Rightarrow> addr \<Rightarrow> addr list" where
  "item_addrs h c =
     (case items_field (category_objects h c) of None \<Rightarrow> [] | Some refs \<Rightarrow> map snd refs)"

definition separate :: "heap \<Rightarrow> (jstring \<times> addr) list \<Rightarrow> bool" where
  "separate h refs \<longleftrightarrow>
     distinct (map snd refs) \<and> distinct (concat (map (\<lambda>(categoryKey, c). item_addrs h c) refs))"

subsection \<open>A sample heap\<close>

definition empty_heap :: heap where
  "empty_heap =
     \<lparr> rule_objects = (\<lambda>a. no_item),
       category_objects = (\<lambda>a. \<lparr> count_field = None, items_field = None \<rparr>),
       results_objects = (\<lambda>a. \<lparr> categories_field = None, statistics_field = None \<rparr>),
       next_free = 0 \<rparr>"

text \<open>
  A heap where the raw result is the object 3: its category \<open>error\<close> is the object 2, with
  the rule groups 0 and 1, and its category \<open>contrast\<close> is the same object 2.
\<close>

definition sample_heap :: heap where
  "sample_heap =
     empty_heap
       \<lparr> rule_objects := (rule_objects empty_heap)(0 := sample_alt_missing, 1 := sample_broken),
         category_objects := (category_objects empty_heap)
            (2 := \<lparr> count_field = Some 5,
                     items_field = Some [(str ''alt_missing'', 0), (str ''label_missing'', 1)] \<rparr>),
         results_objects := (results_objects empty_heap)
            (3 := \<lparr> categories_field = Some [(str ''error'', 2), (str ''contrast'', 2)],
                     statistics_field = None \<rparr>),
         next_free := 4 \<rparr>"

section \<open>Properties\<close>

subsection \<open>Deduplication keeps first occurrences\<close>

lemma foldl_set_add_set: "set (foldl set_add acc xs) = set acc \<union> set xs"
  by (induction xs arbitrary: acc) (auto simp: set_add_def)

lemma foldl_set_add_distinct: "distinct acc \<Longrightarrow> distinct (foldl set_add acc xs)"
  by (induction xs arbitrary: acc) (auto simp: set_add_def)

lemma foldl_set_add_unseen: "foldl set_add acc xs = acc @ unseen (set acc) xs"
  by (induction xs arbitrary: acc) (auto simp: set_add_def)

lemma set_unseen: "set (unseen seen xs) = set xs - seen"
  by (induction xs arbitrary: seen) auto

lemma first_index_Cons: "first_index (x # xs) y = (if y = x then 0 else Suc (first_index xs y))"
  by (simp add: first_index_def)

lemma unseen_sorted: "sorted_wrt (<) (map (first_index xs) (unseen seen xs))"
proof (induction xs arbitrary: seen)
  case Nil
  then show ?case by simp
next
  case (Cons x xs)
  have *: "map (first_index (x # xs)) (unseen s xs) = map (\<lambda>y. Suc (first_index xs y)) (unseen s xs)"
    if "x \<in> s" for s
    using that by (intro map_cong) (auto simp: set_unseen first_index_Cons)
  have IH: "sorted_wrt (<) (map (\<lambda>y. Suc (first_index xs y)) (unseen s xs))" for s
    using Cons.IH[of s] by (simp add: sorted_wrt_map)
  show ?case
  proof (cases "x \<in> seen")
    case True
    then show ?thesis by (simp add: *[OF True] IH)
  next
    case False
    have "first_index (x # xs) x = 0" by (simp add: first_index_def)
    with False show ?thesis
      by (simp add: *[of "insert x seen"] IH)
  qed
qed

lemma new_Set_distinct: "distinct (new_Set xs)"
  by (simp add: new_Set_def foldl_set_add_distinct)

lemma new_Set_set: "set (new_Set xs) = set xs"
  by (simp add: new_Set_def foldl_set_add_set)

lemma new_Set_order: "sorted_wrt (<) (map (first_index xs) (new_Set xs))"
  using unseen_sorted[of xs "{}"] by (simp add: new_Set_def foldl_set_add_unseen)

subsection \<open>The enhanced result\<close>

lemma map_of_map_snd: "map_of (map (\<lambda>(k, v). (k, f v)) xs) k = map_option f (map_of xs k)"
  by (induction xs) auto

lemma filtered_map_of: "map_of (filteredCategories r) k = (if k = key_error \<or> k = key_contrast then category_at r k else None)"
  by (auto simp: filteredCategories_def category_at_def split: option.splits)

lemma category_at_enhance: "category_at (enhanceResultsWithDOMInfo doc r) k =
   (if k = key_error \<or> k = key_contrast then map_option (recalculate_count \<circ> enhance_items doc) (category_at r k) else None)"
  unfolding enhanceResultsWithDOMInfo_def Let_def
  by (simp add: category_at_def[of "_\<lparr>categories := _\<rparr>"] map_of_map_snd filtered_map_of option.map_comp del: map_map)

lemma items_enh: "items (recalculate_count (enhance_items doc c)) = map_option (map (\<lambda>(k, i). (k, enhance_item doc i))) (items c)"
  by (simp add: recalculate_count_def enhance_items_def split: option.splits)

lemma rule_at_enhance: "rule_at (enhanceResultsWithDOMInfo doc r) ck ik =
   (if ck = key_error \<or> ck = key_contrast then map_option (enhance_item doc) (rule_at r ck ik) else None)"
proof -
  have "rule_at x ck ik = (case category_at x ck of None \<Rightarrow> None | Some c \<Rightarrow> (case items c of None \<Rightarrow> None | Some its \<Rightarrow> map_of its ik))" for x
    by (simp add: rule_at_def category_at_def split: option.splits)
  then show ?thesis
    by (simp add: category_at_enhance items_enh map_of_map_snd split: option.splits)
qed

text \<open>
  Claim C1. A rule group of the enhanced output whose raw rule group had an \<open>xpaths\<close>
  array holds, as \<open>xpaths\<close>, the distinct XPaths of the raw array, each once, in the order
  of their first occurrences, and its \<open>count\<close> is the length of that list.
\<close>

theorem enhancer_dedups_xpaths:
  assumes "rule_at (enhanceResultsWithDOMInfo doc results) categoryKey itemKey = Some item'"
    and "rule_at results categoryKey itemKey = Some item"
    and "xpaths item = Some xs"
  shows "xpaths item' = Some (new_Set xs) \<and>
         distinct (new_Set xs) \<and> set (new_Set xs) = set xs \<and>
         sorted_wrt (<) (map (first_index xs) (new_Set xs)) \<and>
         rule_count item' = Some (int (length (new_Set xs)))"
proof -
  from assms(1,2) have "item' = enhance_item doc item"
    by (simp add: rule_at_enhance split: if_splits)
  with assms(3) show ?thesis
    by (simp add: enhance_item_def Let_def new_Set_distinct new_Set_set new_Set_order)
qed

lemma sample_new_Set: "new_Set [str ''/html/body/img'', str ''/html/body/img'', str ''/html/body/p''] = [str ''/html/body/img'', str ''/html/body/p'']"
  by (simp add: new_Set_def set_add_def str_def)

theorem enhancer_dedups_xpaths_witness:
  "rule_at sample_raw key_error (str ''alt_missing'') = Some sample_alt_missing \<and>
   xpaths sample_alt_missing = Some [str ''/html/body/img'', str ''/html/body/img'', str ''/html/body/p''] \<and>
   rule_at (enhanceResultsWithDOMInfo sample_doc sample_raw) key_error (str ''alt_missing'') = Some (enhance_item sample_doc sample_alt_missing) \<and>
   xpaths (enhance_item sample_doc sample_alt_missing) = Some [str ''/html/body/img'', str ''/html/body/p''] \<and>
   rule_count (enhance_item sample_doc sample_alt_missing) = Some 2"
proof -
  have a: "rule_at sample_raw key_error (str ''alt_missing'') = Some sample_alt_missing"
    by (simp add: rule_at_def sample_raw_def key_error_def str_def)
  have b: "xpaths sample_alt_missing = Some [str ''/html/body/img'', str ''/html/body/img'', str ''/html/body/p'']"
    by (simp add: sample_alt_missing_def no_item_def)
  have c: "rule_at (enhanceResultsWithDOMInfo sample_doc sample_raw) key_error (str ''alt_missing'') = Some (enhance_item sample_doc sample_alt_missing)"
    by (simp add: rule_at_enhance a)
  show ?thesis using enhancer_dedups_xpaths[OF c a b] a b c by (simp add: sample_new_Set)
qed

lemma foldl_plus_sum: "foldl (\<lambda>total item. total + f item) (a::int) xs = a + sum_list (map f xs)"
  by (induction xs arbitrary: a) auto

lemma count_or_0_eq: "count_or_0 item = (case rule_count item of None \<Rightarrow> 0 | Some c \<Rightarrow> c)"
  by (simp add: count_or_0_def split: option.splits)

text \<open>
  Claim C2. A category of the enhanced output that has an \<open>items\<close> map has, as
  \<open>count\<close>, the sum of the \<open>count\<close> fields of the rule groups of that map, which are
  the raw rule groups after deduplication (a rule group without a \<open>count\<close> adds 0).
\<close>

theorem category_count_is_sum:
  assumes "category_at (enhanceResultsWithDOMInfo doc results) categoryKey = Some category'"
    and "items category' = Some its'"
  shows "cat_count category' =
           Some (\<Sum>item' \<leftarrow> map snd its'. case rule_count item' of None \<Rightarrow> 0 | Some c \<Rightarrow> c) \<and>
         (\<exists>category its. category_at results categoryKey = Some category \<and> items category = Some its \<and>
            its' = map (\<lambda>(itemKey, item). (itemKey, enhance_item doc item)) its)"
proof -
  from assms(1) obtain category where c: "category_at results categoryKey = Some category"
    and c': "category' = recalculate_count (enhance_items doc category)"
    by (auto simp: category_at_enhance split: if_splits)
  from assms(2) c' obtain its where its: "items category = Some its"
    and its': "its' = map (\<lambda>(itemKey, item). (itemKey, enhance_item doc item)) its"
    by (auto simp: items_enh)
  have "items (enhance_items doc category) = Some its'"
    using its its' by (simp add: enhance_items_def)
  then have "cat_count category' = Some (foldl (\<lambda>total item. total + count_or_0 item) 0 (map snd its'))"
    by (simp add: c' recalculate_count_def)
  then show ?thesis using c its its'
    by (simp add: foldl_plus_sum count_or_0_eq[abs_def])
qed

lemma sample_new_Set2: "new_Set [str ''/html/body/p'', str ''//div[''] = [str ''/html/body/p'', str ''//div['']"
  by (simp add: new_Set_def set_add_def str_def)

lemma sample_error_category:
  "category_at (enhanceResultsWithDOMInfo sample_doc sample_raw) key_error =
     Some \<lparr> cat_count = Some 8,
            items = Some [ (str ''alt_missing'', enhance_item sample_doc sample_alt_missing),
                           (str ''label_missing'', enhance_item sample_doc sample_broken),
                           (str ''legacy'', enhance_item sample_doc (no_item \<lparr> rule_count := Some 4 \<rparr>)) ] \<rparr>"
proof -
  have 1: "rule_count (enhance_item sample_doc sample_alt_missing) = Some 2"
    by (simp add: enhance_item_def sample_alt_missing_def no_item_def sample_new_Set)
  have 2: "rule_count (enhance_item sample_doc sample_broken) = Some 2"
    by (simp add: enhance_item_def sample_broken_def no_item_def sample_new_Set2)
  have 3: "rule_count (enhance_item sample_doc (no_item \<lparr> rule_count := Some 4 \<rparr>)) = Some 4"
    by (simp add: enhance_item_def no_item_def)
  have "category_at sample_raw key_error = Some \<lparr> cat_count = Some 5,
                              items = Some [ (str ''alt_missing'', sample_alt_missing),
                                             (str ''label_missing'', sample_broken),
                                             (str ''legacy'', no_item \<lparr> rule_count := Some 4 \<rparr>) ] \<rparr>"
    by (simp add: category_at_def sample_raw_def key_error_def str_def)
  then show ?thesis
    by (simp add: category_at_enhance recalculate_count_def enhance_items_def count_or_0_def 1 2 3)
qed

theorem category_count_is_sum_witness:
  "category_at (enhanceResultsWithDOMInfo sample_doc sample_raw) key_error =
     Some \<lparr> cat_count = Some 8,
            items = Some [ (str ''alt_missing'', enhance_item sample_doc sample_alt_missing),
                           (str ''label_missing'', enhance_item sample_doc sample_broken),
                           (str ''legacy'', enhance_item sample_doc (no_item \<lparr> rule_count := Some 4 \<rparr>)) ] \<rparr> \<and>
   map (rule_count \<circ> snd) [ (str ''alt_missing'', enhance_item sample_doc sample_alt_missing),
                           (str ''label_missing'', enhance_item sample_doc sample_broken),
                           (str ''legacy'', enhance_item sample_doc (no_item \<lparr> rule_count := Some 4 \<rparr>)) ] = [Some 2, Some 2, Some 4]"
  using category_count_is_sum[OF sample_error_category, of "[ (str ''alt_missing'', enhance_item sample_doc sample_alt_missing),
                           (str ''label_missing'', enhance_item sample_doc sample_broken),
                           (str ''legacy'', enhance_item sample_doc (no_item \<lparr> rule_count := Some 4 \<rparr>)) ]"]
    sample_error_category
  by (simp add: enhance_item_def sample_alt_missing_def sample_broken_def no_item_def sample_new_Set sample_new_Set2)

lemma length_new_Set_le: "length (new_Set xs) \<le> length xs"
proof -
  have "length (new_Set xs) = card (set xs)"
    using distinct_card[OF new_Set_distinct, of xs] by (simp add: new_Set_set)
  then show ?thesis by (simp add: card_length)
qed

text \<open>
  Claim C5. For a rule group with an \<open>xpaths\<close> array, deduplicated to \<open>n\<close> XPaths, each
  of the positional arrays \<open>selectors\<close>, \<open>text\<close>, \<open>hidden\<close> and \<open>contrastdata\<close> that
  is present (an array with one entry for each raw XPath) is replaced by its first \<open>n\<close>
  entries in the original order, so that its length is the length of the deduplicated
  XPath list; no entry is moved to the position of the first occurrence of its XPath.
\<close>

theorem aux_arrays_truncated:
  assumes "rule_at (enhanceResultsWithDOMInfo doc results) categoryKey itemKey = Some item'"
    and "rule_at results categoryKey itemKey = Some item"
    and "xpaths item = Some xs"
    and "aux \<in> {selectors, texts, hidden, contrastdata}"
    and "aux item = Some a"
    and "length a = length xs"
  shows "aux item' = Some (take (length (new_Set xs)) a) \<and>
         map_option length (aux item') = Some (length (new_Set xs)) \<and>
         map_option length (aux item') = map_option length (xpaths item')"
proof -
  from assms(1,2) have "item' = enhance_item doc item"
    by (simp add: rule_at_enhance split: if_splits)
  with assms(3,4,5,6) length_new_Set_le[of xs] show ?thesis
    by (auto simp: enhance_item_def Let_def slice0_def)
qed

theorem aux_arrays_truncated_witness:
  "rule_at (enhanceResultsWithDOMInfo sample_doc sample_raw) key_error (str ''alt_missing'') = Some (enhance_item sample_doc sample_alt_missing) \<and>
   rule_at sample_raw key_error (str ''alt_missing'') = Some sample_alt_missing \<and>
   xpaths sample_alt_missing = Some [str ''/html/body/img'', str ''/html/body/img'', str ''/html/body/p''] \<and>
   selectors sample_alt_missing = Some [JStr (str ''img.a''), JStr (str ''img.b''), JStr (str ''p'')] \<and>
   length [JStr (str ''img.a''), JStr (str ''img.b''), JStr (str ''p'')]
     = length [str ''/html/body/img'', str ''/html/body/img'', str ''/html/body/p''] \<and>
   xpaths (enhance_item sample_doc sample_alt_missing) = Some [str ''/html/body/img'', str ''/html/body/p''] \<and>
   selectors (enhance_item sample_doc sample_alt_missing) = Some [JStr (str ''img.a''), JStr (str ''img.b'')] \<and>
   map_option length (selectors (enhance_item sample_doc sample_alt_missing)) = Some 2"
proof -
  have a: "rule_at sample_raw key_error (str ''alt_missing'') = Some sample_alt_missing"
    by (simp add: rule_at_def sample_raw_def key_error_def str_def)
  have b: "xpaths sample_alt_missing = Some [str ''/html/body/img'', str ''/html/body/img'', str ''/html/body/p'']"
    by (simp add: sample_alt_missing_def no_item_def)
  have c: "rule_at (enhanceResultsWithDOMInfo sample_doc sample_raw) key_error (str ''alt_missing'') = Some (enhance_item sample_doc sample_alt_missing)"
    by (simp add: rule_at_enhance a)
  have d: "selectors sample_alt_missing = Some [JStr (str ''img.a''), JStr (str ''img.b''), JStr (str ''p'')]"
    by (simp add: sample_alt_missing_def no_item_def)
  have e: "selectors \<in> {selectors, texts, hidden, contrastdata}" by simp
  have f: "xpaths (enhance_item sample_doc sample_alt_missing) = Some [str ''/html/body/img'', str ''/html/body/p'']"
    by (simp add: enhance_item_def b sample_new_Set)
  have g: "length [JStr (str ''img.a''), JStr (str ''img.b''), JStr (str ''p'')]
     = length [str ''/html/body/img'', str ''/html/body/img'', str ''/html/body/p'']"
    by simp
  show ?thesis using aux_arrays_truncated[OF c a b e d g] a b c d f by (simp add: sample_new_Set)
qed

lemma map_fst_map_snd: "map fst (map (\<lambda>(k, c). (k, f c)) xs) = map fst xs"
  by (induction xs) auto

lemma categories_enhance_keys:
  "\<exists>cats'. categories (enhanceResultsWithDOMInfo doc results) = Some cats' \<and>
      map fst cats' = map fst (filteredCategories results)"
  by (simp add: enhanceResultsWithDOMInfo_def Let_def map_fst_map_snd del: map_map)

lemma key_error_neq_contrast: "key_error \<noteq> key_contrast"
  by (simp add: key_error_def key_contrast_def str_def)

lemma filteredCategories_keys:
  "distinct (map fst (filteredCategories results))"
  "set (map fst (filteredCategories results)) \<subseteq> {key_error, key_contrast}"
  "\<forall>k \<in> set (map fst (filteredCategories results)). category_at results k \<noteq> None"
  using key_error_neq_contrast
  by (auto simp: filteredCategories_def category_at_def split: option.splits dest: sym)

text \<open>
  Claim C6. The categories of the enhanced output have distinct names among \<open>error\<close> and
  \<open>contrast\<close>, each of them a category of the raw result, and no category under any
  other name.
\<close>

theorem only_error_and_contrast:
  "\<exists>cats'. categories (enhanceResultsWithDOMInfo doc results) = Some cats' \<and>
      distinct (map fst cats') \<and>
      set (map fst cats') \<subseteq> {key_error, key_contrast} \<and>
      (\<forall>k \<in> set (map fst cats'). category_at results k \<noteq> None) \<and>
      (\<forall>k. k \<noteq> key_error \<and> k \<noteq> key_contrast \<longrightarrow>
           category_at (enhanceResultsWithDOMInfo doc results) k = None)"
proof -
  obtain cats' where 1: "categories (enhanceResultsWithDOMInfo doc results) = Some cats'"
    and 2: "map fst cats' = map fst (filteredCategories results)"
    using categories_enhance_keys by blast
  show ?thesis
    using 1 filteredCategories_keys[of results, folded 2]
    by (simp add: category_at_enhance)
qed

theorem only_error_and_contrast_witness:
  "category_at sample_raw (str ''alert'') \<noteq> None \<and> str ''alert'' \<noteq> key_error \<and> str ''alert'' \<noteq> key_contrast \<and>
   category_at (enhanceResultsWithDOMInfo sample_doc sample_raw) (str ''alert'') = None \<and>
   map fst (the (categories (enhanceResultsWithDOMInfo sample_doc sample_raw))) = [key_error]"
proof -
  have "map fst (the (categories (enhanceResultsWithDOMInfo sample_doc sample_raw))) = [key_error]"
    by (simp add: enhanceResultsWithDOMInfo_def filteredCategories_def sample_raw_def key_error_def key_contrast_def str_def)
  moreover have "category_at sample_raw (str ''alert'') \<noteq> None"
    by (simp add: category_at_def sample_raw_def)
  moreover have "str ''alert'' \<noteq> key_error \<and> str ''alert'' \<noteq> key_contrast"
    by (simp add: key_error_def key_contrast_def str_def)
  ultimately show ?thesis using only_error_and_contrast[of sample_doc sample_raw] by auto
qed

lemma sample_new_Set3:
  "new_Set [str ''/html/body/p'', str ''/html/body/img'', str ''//div['']
     = [str ''/html/body/p'', str ''/html/body/img'', str ''//div['']"
  by (simp add: new_Set_def set_add_def str_def)

text \<open>
  Claim C3. A lookup that resolves no element, or that throws, should leave a \<open>null\<close> or
  an error marker in \<open>domInfo\<close> at the position of its XPath: the CSV builder reads
  \<open>domInfo\<close> at the index of the XPath and handles both kinds of entry. The enhancer does
  not do this. In the sample, the rule has three XPaths: the first resolves to no element,
  the second is the image and the third makes the lookup throw. The enhancement does not
  fail, but \<open>domInfo\<close> has two entries only, the image and the error marker: the \<open>null\<close>
  of the first XPath was filtered out. So the row of the first XPath gets the image, the row
  of the image gets the error marker of the third XPath, and the row of the third XPath
  gets nothing.
\<close>

theorem domInfo_shifts_after_missing_element:
  "sample_doc (str ''/html/body/p'') = NoElement \<and>
   sample_doc (str ''/html/body/img'') = Info [(str ''tagName'', JStr (str ''IMG''))] \<and>
   sample_doc (str ''//div['') = Throws (str ''invalid expression'') \<and>
   rule_at (enhanceResultsWithDOMInfo sample_doc sample_raw_missing_first) key_error (str ''alt_missing'')
     = Some (enhance_item sample_doc sample_missing_first) \<and>
   xpaths (enhance_item sample_doc sample_missing_first)
     = Some [str ''/html/body/p'', str ''/html/body/img'', str ''//div[''] \<and>
   domInfo (enhance_item sample_doc sample_missing_first)
     = Some [JObj [(str ''tagName'', JStr (str ''IMG''))], error_marker (str ''invalid expression'')] \<and>
   domInfo (enhance_item sample_doc sample_missing_first)
     \<noteq> Some [JNull, JObj [(str ''tagName'', JStr (str ''IMG''))],
              error_marker (str ''invalid expression'')] \<and>
   domInfo_at (enhance_item sample_doc sample_missing_first) 0
     = Some (JObj [(str ''tagName'', JStr (str ''IMG''))]) \<and>
   domInfo_at (enhance_item sample_doc sample_missing_first) 1
     = Some (error_marker (str ''invalid expression'')) \<and>
   domInfo_at (enhance_item sample_doc sample_missing_first) 2 = None"
proof -
  have a: "rule_at sample_raw_missing_first key_error (str ''alt_missing'') = Some sample_missing_first"
    by (simp add: rule_at_def sample_raw_missing_first_def key_error_def str_def)
  have b: "sample_doc (str ''/html/body/p'') = NoElement"
    "sample_doc (str ''/html/body/img'') = Info [(str ''tagName'', JStr (str ''IMG''))]"
    "sample_doc (str ''//div['') = Throws (str ''invalid expression'')"
    by (simp_all add: sample_doc_def str_def)
  have c: "xpaths (enhance_item sample_doc sample_missing_first)
     = Some [str ''/html/body/p'', str ''/html/body/img'', str ''//div['']"
    by (simp add: enhance_item_def sample_missing_first_def no_item_def sample_new_Set3)
  have d: "domInfo (enhance_item sample_doc sample_missing_first)
     = Some [JObj [(str ''tagName'', JStr (str ''IMG''))], error_marker (str ''invalid expression'')]"
    by (simp add: enhance_item_def sample_missing_first_def no_item_def sample_new_Set3
        getElementInfo_def b error_marker_def)
  show ?thesis
    by (simp add: rule_at_enhance a b c d domInfo_at_def)
qed

subsection \<open>CSV escaping and file names\<close>

lemma replace_dquotes_concat:
  "replace_dquotes s = concat (map (\<lambda>c. if c = dquote then [dquote, dquote] else [c]) s)"
  by (induction s) auto

lemma special_units:
  \<open>str ''"'' = [dquote]\<close> \<open>str '','' = [comma]\<close> \<open>str ''\<newline>'' = [newline]\<close>
  \<open>str ''""'' = [dquote, dquote]\<close> \<open>str ''.'' = [dot]\<close> \<open>str ''/'' = [slash]\<close>
  by (simp_all add: str_def dquote_def comma_def newline_def dot_def slash_def)

text \<open>
  Claim C4. \<open>escapeCSV\<close> returns two double quotes for \<open>null\<close> and \<open>undefined\<close>; a field
  with a double quote, a comma or a newline is wrapped in double quotes, each of its double
  quotes doubled; any other field is returned as it is, so escaping it twice is escaping it
  once; and the example of the specification holds.
\<close>

theorem escapeCSV_cases:
  \<open>escapeCSV None = str ''""'' \<and>
   (dquote \<in> set field \<or> comma \<in> set field \<or> newline \<in> set field \<longrightarrow>
      escapeCSV (Some field) =
        str ''"'' @ concat (map (\<lambda>c. if c = dquote then [dquote, dquote] else [c]) field) @ str ''"'') \<and>
   (dquote \<notin> set field \<and> comma \<notin> set field \<and> newline \<notin> set field \<longrightarrow>
      escapeCSV (Some field) = field \<and>
      escapeCSV (Some (escapeCSV (Some field))) = escapeCSV (Some field)) \<and>
   [dquote] = str ''"'' \<and> [comma] = str '','' \<and> [newline] = str ''\<newline>'' \<and>
   escapeCSV (Some (str ''He said "hi", ok'')) = str ''"He said ""hi"", ok"''\<close>
proof (intro conjI impI)
  show \<open>escapeCSV (Some (str ''He said "hi", ok'')) = str ''"He said ""hi"", ok"''\<close>
    by (simp add: escapeCSV_def str_def dquote_def comma_def newline_def)
qed (simp_all add: escapeCSV_def replace_dquotes_concat special_units)

theorem escapeCSV_cases_witness:
  \<open>comma \<in> set (str ''a,b'') \<and> escapeCSV (Some (str ''a,b'')) = str ''"a,b"'' \<and>
   dquote \<notin> set (str ''plain'') \<and> comma \<notin> set (str ''plain'') \<and> newline \<notin> set (str ''plain'') \<and>
   escapeCSV (Some (str ''plain'')) = str ''plain'' \<and>
   escapeCSV (Some (escapeCSV (Some (str ''plain'')))) = str ''plain''\<close>
proof -
  have a: \<open>comma \<in> set (str ''a,b'')\<close> by (simp add: str_def comma_def)
  have b: \<open>dquote \<notin> set (str ''plain'') \<and> comma \<notin> set (str ''plain'') \<and> newline \<notin> set (str ''plain'')\<close>
    by (simp add: str_def dquote_def comma_def newline_def)
  have c: \<open>concat (map (\<lambda>c. if c = dquote then [dquote, dquote] else [c]) (str ''a,b'')) = str ''a,b''\<close>
    by (simp add: str_def dquote_def)
  show ?thesis using escapeCSV_cases[of "str ''a,b''"] escapeCSV_cases[of "str ''plain''"] a b
    by (simp add: c) (simp add: str_def)
qed

lemma length_filename_prefix: "length filename_prefix = 22"
  by (simp add: filename_prefix_def str_def)

lemma generateFilename_eq:
  "generateFilename target extension =
     filename_prefix @ take (199 - length extension)
        (replace_special (strip_trailing_slash (strip_protocol target))) @ [dot] @ extension"
  by (auto simp: generateFilename_def Let_def substring0_def maxBaseLength_def nat_diff_distrib')

text \<open>
  Claim C9. The file name is the prefix \<open>accessibility-results-\<close>, the base, a dot and
  the extension; the base is the URL without a leading \<open>http://\<close> or \<open>https://\<close> and
  without one trailing slash, every code unit outside \<open>[a-zA-Z0-9]\<close> replaced by a dash,
  cut to \<open>199 - length extension\<close>. The function is total: no step of it can throw. The
  name has at most 222 code units for an extension of at most 199, and fewer than 255 for
  an extension of fewer than 232. The example of the specification holds.
\<close>

theorem generateFilename_shape:
  "generateFilename target extension =
     str ''accessibility-results-'' @
     take (199 - length extension)
       (map (\<lambda>c. if is_alnum c then c else dash) (strip_trailing_slash (strip_protocol target))) @
     str ''.'' @ extension \<and>
   strip_protocol (str ''http://'' @ rest) = rest \<and>
   strip_protocol (str ''https://'' @ rest) = rest \<and>
   (take 7 target \<noteq> str ''http://'' \<and> take 8 target \<noteq> str ''https://'' \<longrightarrow> strip_protocol target = target) \<and>
   strip_trailing_slash (rest @ str ''/'') = rest \<and>
   (rest = [] \<or> last rest \<noteq> slash \<longrightarrow> strip_trailing_slash rest = rest) \<and>
   (length extension \<le> 199 \<longrightarrow> length (generateFilename target extension) \<le> 222) \<and>
   (length extension < 232 \<longrightarrow> length (generateFilename target extension) < 255) \<and>
   generateFilename (str ''https://example.com/about'') (str ''csv'')
     = str ''accessibility-results-example-com-about.csv''"
proof (intro conjI impI)
  have len: "length (generateFilename target extension) \<le> max 222 (23 + length extension)"
    by (simp add: generateFilename_eq length_filename_prefix)
  show "generateFilename target extension =
     str ''accessibility-results-'' @
     take (199 - length extension)
       (map (\<lambda>c. if is_alnum c then c else dash) (strip_trailing_slash (strip_protocol target))) @
     str ''.'' @ extension"
    by (simp add: generateFilename_eq replace_special_def filename_prefix_def special_units)
  show "strip_protocol (str ''http://'' @ rest) = rest" "strip_protocol (str ''https://'' @ rest) = rest"
    by (simp_all add: strip_protocol_def str_def)
  show "strip_protocol target = target" if "take 7 target \<noteq> str ''http://'' \<and> take 8 target \<noteq> str ''https://''"
    using that by (simp add: strip_protocol_def)
  show "strip_trailing_slash (rest @ str ''/'') = rest"
    by (simp add: strip_trailing_slash_def special_units)
  show "strip_trailing_slash rest = rest" if "rest = [] \<or> last rest \<noteq> slash"
    using that by (auto simp: strip_trailing_slash_def)
  show "length (generateFilename target extension) \<le> 222" if "length extension \<le> 199"
    using that len by simp
  show "length (generateFilename target extension) < 255" if "length extension < 232"
    using that len by simp
  show "generateFilename (str ''https://example.com/about'') (str ''csv'')
     = str ''accessibility-results-example-com-about.csv''"
    by (simp add: generateFilename_def strip_protocol_def strip_trailing_slash_def replace_special_def
        is_alnum_def maxBaseLength_def substring0_def filename_prefix_def str_def dash_def dot_def slash_def)
qed

theorem generateFilename_shape_witness:
  "take 7 (str ''example.com/'') \<noteq> str ''http://'' \<and> take 8 (str ''example.com/'') \<noteq> str ''https://'' \<and>
   last (str ''about'') \<noteq> slash \<and> length (str ''error.json'') \<le> 199 \<and>
   strip_protocol (str ''example.com/'') = str ''example.com/'' \<and>
   strip_trailing_slash (str ''about'') = str ''about'' \<and>
   length (generateFilename (str ''example.com/'') (str ''error.json'')) < 255 \<and>
   generateFilename (str ''example.com/'') (str ''error.json'') = str ''accessibility-results-example-com.error.json''"
proof -
  have a: "take 7 (str ''example.com/'') \<noteq> str ''http://'' \<and> take 8 (str ''example.com/'') \<noteq> str ''https://''"
    by (simp add: str_def)
  have b: "last (str ''about'') \<noteq> slash" by (simp add: str_def slash_def)
  have c: "length (str ''error.json'') \<le> 199" by (simp add: str_def)
  have e: "generateFilename (str ''example.com/'') (str ''error.json'') = str ''accessibility-results-example-com.error.json''"
    by (simp add: generateFilename_def strip_protocol_def strip_trailing_slash_def replace_special_def
        is_alnum_def maxBaseLength_def substring0_def filename_prefix_def str_def dash_def dot_def slash_def)
  have c': "length (str ''error.json'') < 232" by (simp add: str_def)
  note th = generateFilename_shape[of "str ''example.com/''" "str ''error.json''" "str ''about''"]
  from th a have 1: "strip_protocol (str ''example.com/'') = str ''example.com/''" by blast
  from th b have 2: "strip_trailing_slash (str ''about'') = str ''about''" by blast
  from th c' have 3: "length (generateFilename (str ''example.com/'') (str ''error.json'')) < 255" by blast
  show ?thesis using a b c 1 2 3 e by blast
qed

subsection \<open>The batch orchestrator\<close>

declare retry_loop.simps [simp del]

lemma retry_loop_all_fail:
  assumes "\<forall>k. attempt \<le> k \<and> int k < maxRetries \<longrightarrow> w current k = Inl (m k)"
    and "int attempt < maxRetries"
  shows "retry_loop w maxRetries u current attempt =
           Some \<lparr> url = u, success = False, report = None,
                  error = Some (m (nat maxRetries - 1)), attempts = nat maxRetries \<rparr>"
  using assms
proof (induction w maxRetries u current attempt rule: retry_loop.induct)
  case (1 w maxRetries u current attempt)
  have f: "w current attempt = Inl (m attempt)" using 1 by simp
  show ?case
  proof (cases "int (attempt + 1) \<ge> maxRetries")
    case True
    with 1(3) have "nat maxRetries = attempt + 1" by linarith
    with True 1(3) f show ?thesis
      by (subst retry_loop.simps) simp
  next
    case False
    have "retry_loop w maxRetries u current attempt = retry_loop w maxRetries u current (attempt + 1)"
      using False 1(3) f by (subst retry_loop.simps) simp
    also have "\<dots> = Some \<lparr> url = u, success = False, report = None,
                  error = Some (m (nat maxRetries - 1)), attempts = nat maxRetries \<rparr>"
      using 1(1)[OF 1(3) f] False 1(2) by auto
    finally show ?thesis .
  qed
qed

lemma retry_loop_defined:
  "int attempt < maxRetries \<Longrightarrow> \<exists>r. retry_loop w maxRetries u current attempt = Some r \<and> url r = u \<and>
      (success r \<longleftrightarrow> (\<exists>k. attempt \<le> k \<and> int k < maxRetries \<and> \<not> isl (w current k)))"
proof (induction w maxRetries u current attempt rule: retry_loop.induct)
  case (1 w maxRetries u current attempt)
  show ?case
  proof (cases "w current attempt")
    case (Inr rep)
    with 1(2) show ?thesis by (subst retry_loop.simps) (auto intro!: exI[of _ attempt])
  next
    case (Inl message)
    show ?thesis
    proof (cases "int (attempt + 1) \<ge> maxRetries")
      case True
      have "\<not> (\<exists>k. attempt \<le> k \<and> int k < maxRetries \<and> \<not> isl (w current k))"
      proof
        assume "\<exists>k. attempt \<le> k \<and> int k < maxRetries \<and> \<not> isl (w current k)"
        then obtain k where "attempt \<le> k" "int k < maxRetries" "\<not> isl (w current k)" by blast
        with True have "k = attempt" by linarith
        with \<open>\<not> isl (w current k)\<close> Inl show False by simp
      qed
      with True Inl 1(2) show ?thesis by (subst retry_loop.simps) simp
    next
      case False
      from 1(1)[OF 1(2) Inl] False obtain r where r: "retry_loop w maxRetries u current (attempt + 1) = Some r" "url r = u"
        "success r \<longleftrightarrow> (\<exists>k. attempt + 1 \<le> k \<and> int k < maxRetries \<and> \<not> isl (w current k))"
        by auto
      have "(\<exists>k. attempt + 1 \<le> k \<and> int k < maxRetries \<and> \<not> isl (w current k)) \<longleftrightarrow>
            (\<exists>k. attempt \<le> k \<and> int k < maxRetries \<and> \<not> isl (w current k))"
        using Inl by (metis Suc_eq_plus1 Suc_leD Suc_leI le_neq_implies_less sum.disc(1))
      with r False Inl 1(2) show ?thesis by (subst retry_loop.simps) simp
    qed
  qed
qed

lemma length_batch_loop: "length (batch_loop w maxRetries i us) = length us"
  by (induction us arbitrary: i) auto

lemma nth_batch_loop:
  "j < length us \<Longrightarrow> batch_loop w maxRetries i us ! j = processUrlWithRetry w maxRetries (us ! j) (i + j + 1)"
proof (induction us arbitrary: i j)
  case Nil
  then show ?case by simp
next
  case (Cons u us)
  then show ?case by (cases j) auto
qed

lemma processUrlWithRetry_defined:
  assumes "1 \<le> maxRetries"
  shows "\<exists>r. processUrlWithRetry w maxRetries u current = Some r \<and> url r = u \<and>
      (success r \<longleftrightarrow> (\<exists>k. int k < maxRetries \<and> \<not> isl (w current k)))"
  using retry_loop_defined[of 0 maxRetries w u current] assms
  by (simp add: processUrlWithRetry_def)

lemma batch_loop_no_undefined:
  "1 \<le> maxRetries \<Longrightarrow> None \<notin> set (batch_loop w maxRetries i us)"
proof (induction us arbitrary: i)
  case Nil
  then show ?case by simp
next
  case (Cons u us)
  then show ?case using processUrlWithRetry_defined[of maxRetries w u "i + 1"] by auto
qed

lemma count_success_split:
  "length (filter (\<lambda>r. success (the r)) rs) + length (filter (\<lambda>r. \<not> success (the r)) rs) = length rs"
  by (induction rs) auto

text \<open>
  Claim C8. With \<open>maxRetries\<close> at least 1: a URL whose every attempt fails gets a result
  with \<open>success = false\<close>, the message of the last attempt and \<open>maxRetries\<close> attempts;
  the batch has one result for each URL, the one \<open>_processUrlWithRetry\<close> gives for it,
  whatever happened to the URLs before; the fields \<open>successful\<close> and \<open>failed\<close> of the
  summary count the results with \<open>success\<close> true and false, and sum to the number of
  URLs; and a batch of three where only the second URL fails every attempt has 2 successful
  and 1 failed.
\<close>

theorem batch_isolates_failures:
  assumes "1 \<le> maxRetries"
  shows "((\<forall>k. int k < maxRetries \<longrightarrow> w current k = Inl (m k)) \<longrightarrow>
            processUrlWithRetry w maxRetries u current =
              Some \<lparr> url = u, success = False, report = None,
                     error = Some (m (nat maxRetries - 1)), attempts = nat maxRetries \<rparr>) \<and>
         (\<exists>results summary.
            analyzeBatch w maxRetries urls = Inr (results, summary) \<and>
            length results = length urls \<and>
            (\<forall>i < length urls.
               results ! i = processUrlWithRetry w maxRetries (urls ! i) (i + 1) \<and>
               results ! i \<noteq> None) \<and>
            totalUrls summary = length urls \<and>
            successful summary = length (filter (\<lambda>r. success (the r)) results) \<and>
            failed summary = length (filter (\<lambda>r. \<not> success (the r)) results) \<and>
            successful summary + failed summary = length urls) \<and>
         ((\<exists>k. int k < maxRetries \<and> \<not> isl (w 1 k)) \<and>
          (\<forall>k. int k < maxRetries \<longrightarrow> isl (w 2 k)) \<and>
          (\<exists>k. int k < maxRetries \<and> \<not> isl (w 3 k)) \<longrightarrow>
            (\<exists>results summary.
               analyzeBatch w maxRetries [u1, u2, u3] = Inr (results, summary) \<and>
               map (map_option success) results = [Some True, Some False, Some True] \<and>
               successful summary = 2 \<and> failed summary = 1))"
proof (intro conjI impI)
  assume "\<forall>k. int k < maxRetries \<longrightarrow> w current k = Inl (m k)"
  then show "processUrlWithRetry w maxRetries u current =
              Some \<lparr> url = u, success = False, report = None,
                     error = Some (m (nat maxRetries - 1)), attempts = nat maxRetries \<rparr>"
    using retry_loop_all_fail[of 0 maxRetries w current m u] assms
    by (simp add: processUrlWithRetry_def)
next
  let ?results = "batch_loop w maxRetries 0 urls"
  let ?summary = "\<lparr> totalUrls = length urls,
                 successful = length (filter (\<lambda>r. success (the r)) ?results),
                 failed = length (filter (\<lambda>r. \<not> success (the r)) ?results) \<rparr>"
  have nn: "None \<notin> set ?results" using assms by (rule batch_loop_no_undefined)
  then have a: "analyzeBatch w maxRetries urls = Inr (?results, ?summary)"
    by (simp add: analyzeBatch_def createBatchSummary_def Let_def)
  have b: "\<forall>i < length urls. ?results ! i = processUrlWithRetry w maxRetries (urls ! i) (i + 1) \<and> ?results ! i \<noteq> None"
  proof (intro allI impI)
    fix i assume "i < length urls"
    moreover obtain r where "processUrlWithRetry w maxRetries (urls ! i) (i + 1) = Some r"
      using processUrlWithRetry_defined[OF assms, of w "urls ! i" "i + 1"] by blast
    ultimately show "?results ! i = processUrlWithRetry w maxRetries (urls ! i) (i + 1) \<and> ?results ! i \<noteq> None"
      by (simp add: nth_batch_loop)
  qed
  have c: "successful ?summary + failed ?summary = length urls"
    using count_success_split[of ?results] by (simp add: length_batch_loop)
  show "\<exists>results summary.
            analyzeBatch w maxRetries urls = Inr (results, summary) \<and>
            length results = length urls \<and>
            (\<forall>i < length urls.
               results ! i = processUrlWithRetry w maxRetries (urls ! i) (i + 1) \<and>
               results ! i \<noteq> None) \<and>
            totalUrls summary = length urls \<and>
            successful summary = length (filter (\<lambda>r. success (the r)) results) \<and>
            failed summary = length (filter (\<lambda>r. \<not> success (the r)) results) \<and>
            successful summary + failed summary = length urls"
  proof (intro exI conjI)
    show "analyzeBatch w maxRetries urls = Inr (?results, ?summary)" by (rule a)
    show "length ?results = length urls" by (simp add: length_batch_loop)
    show "\<forall>i < length urls. ?results ! i = processUrlWithRetry w maxRetries (urls ! i) (i + 1) \<and> ?results ! i \<noteq> None"
      by (rule b)
    show "totalUrls ?summary = length urls" by simp
    show "successful ?summary = length (filter (\<lambda>r. success (the r)) ?results)" by simp
    show "failed ?summary = length (filter (\<lambda>r. \<not> success (the r)) ?results)" by simp
    show "successful ?summary + failed ?summary = length urls" by (rule c)
  qed
next
  assume h: "(\<exists>k. int k < maxRetries \<and> \<not> isl (w 1 k)) \<and>
          (\<forall>k. int k < maxRetries \<longrightarrow> isl (w 2 k)) \<and>
          (\<exists>k. int k < maxRetries \<and> \<not> isl (w 3 k))"
  obtain r1 where r1: "processUrlWithRetry w maxRetries u1 1 = Some r1" "success r1"
    using processUrlWithRetry_defined[OF assms, of w u1 1] h by auto
  obtain r2 where r2: "processUrlWithRetry w maxRetries u2 2 = Some r2" "\<not> success r2"
    using processUrlWithRetry_defined[OF assms, of w u2 2] h by auto
  obtain r3 where r3: "processUrlWithRetry w maxRetries u3 3 = Some r3" "success r3"
    using processUrlWithRetry_defined[OF assms, of w u3 3] h by auto
  show "\<exists>results summary.
               analyzeBatch w maxRetries [u1, u2, u3] = Inr (results, summary) \<and>
               map (map_option success) results = [Some True, Some False, Some True] \<and>
               successful summary = 2 \<and> failed summary = 1"
  proof -
    have "batch_loop w maxRetries 0 [u1, u2, u3] = [Some r1, Some r2, Some r3]"
      using r1(1) r2(1) r3(1) by (simp add: numeral_2_eq_2 numeral_3_eq_3)
    then show ?thesis
      using r1(2) r2(2) r3(2) by (simp add: analyzeBatch_def createBatchSummary_def Let_def)
  qed
qed

lemma sample_world_2: "sample_world 2 k = Inl (str ''Failed to analyze: timeout '' @ [of_nat (48 + k)])"
  by (simp add: sample_world_def)

theorem batch_isolates_failures_witness:
  "(1::int) \<le> 2 \<and>
   (\<exists>k. int k < 2 \<and> \<not> isl (sample_world 1 k)) \<and>
   (\<forall>k. sample_world 2 k = Inl (str ''Failed to analyze: timeout '' @ [of_nat (48 + k)])) \<and>
   (\<exists>k. int k < 2 \<and> \<not> isl (sample_world 3 k)) \<and>
   processUrlWithRetry sample_world 2 (str ''https://b.example'') 2 =
     Some \<lparr> url = str ''https://b.example'', success = False, report = None,
            error = Some (str ''Failed to analyze: timeout 1''), attempts = 2 \<rparr> \<and>
   (\<exists>results summary.
      analyzeBatch sample_world 2 [str ''https://a.example'', str ''https://b.example'', str ''https://c.example'']
        = Inr (results, summary) \<and>
      map (map_option success) results = [Some True, Some False, Some True] \<and>
      successful summary = 2 \<and> failed summary = 1)"
proof -
  have 0: "(1::int) \<le> 2" by simp
  have 1: "\<exists>k. int k < 2 \<and> \<not> isl (sample_world 1 k)"
    by (rule exI[of _ 0]) (simp add: sample_world_def)
  have 2: "\<forall>k. sample_world 2 k = Inl (str ''Failed to analyze: timeout '' @ [of_nat (48 + k)])"
    by (simp add: sample_world_2)
  have all2: "\<forall>k. int k < 2 \<longrightarrow> isl (sample_world 2 k)"
    by (simp add: sample_world_2)
  have 3: "\<exists>k. int k < 2 \<and> \<not> isl (sample_world 3 k)"
    by (rule exI[of _ 0]) (simp add: sample_world_def)
  note th = batch_isolates_failures[OF 0, of sample_world 2 "\<lambda>k. str ''Failed to analyze: timeout '' @ [of_nat (48 + k)]"
      "str ''https://b.example''" "[]" "str ''https://a.example''" "str ''https://b.example''" "str ''https://c.example''"]
  from th 2 have a: "processUrlWithRetry sample_world 2 (str ''https://b.example'') 2 =
     Some \<lparr> url = str ''https://b.example'', success = False, report = None,
            error = Some (str ''Failed to analyze: timeout '' @ [of_nat (48 + (nat 2 - 1))]), attempts = nat 2 \<rparr>"
    by blast
  have e: "str ''Failed to analyze: timeout '' @ [of_nat (48 + (nat 2 - 1))] = str ''Failed to analyze: timeout 1''"
    by (simp add: str_def)
  from th 1 all2 3 have b: "\<exists>results summary.
      analyzeBatch sample_world 2 [str ''https://a.example'', str ''https://b.example'', str ''https://c.example'']
        = Inr (results, summary) \<and>
      map (map_option success) results = [Some True, Some False, Some True] \<and>
      successful summary = 2 \<and> failed summary = 1"
    by blast
  show ?thesis using 0 1 2 3 a[unfolded e] b by simp
qed

subsection \<open>The polling initializer\<close>

declare checkWaveAvailability_analyzer.simps [simp del]

lemma test_init_throws_step:
  assumes "ready_init_throws (page (tries + 1)) message"
  shows "checkWaveAvailability_test (Suc calls) page doc tries =
           (if tries + 1 < wave_test_maxRetries
            then after_delay (wave_test_retryDelay * 2) (checkWaveAvailability_test calls page doc (tries + 1))
            else ([], Some (Rejected (InitializationFailedAfterRetries message))))"
  using assms by (simp add: ready_init_throws_def)

lemma test_step_cases:
  "checkWaveAvailability_test (Suc calls) page doc tries =
     after_delay wave_test_retryDelay (checkWaveAvailability_test calls page doc (tries + 1)) \<or>
   (tries + 1 < wave_test_maxRetries \<and>
    checkWaveAvailability_test (Suc calls) page doc tries =
      after_delay (wave_test_retryDelay * 2) (checkWaveAvailability_test calls page doc (tries + 1))) \<or>
   fst (checkWaveAvailability_test (Suc calls) page doc tries) = []"
  by (simp split: option.splits run_outcome.splits)

lemma test_long_delays_bounded:
  "length (filter (\<lambda>d. d > wave_test_retryDelay) (fst (checkWaveAvailability_test calls page doc tries)))
     \<le> wave_test_maxRetries - 1 - tries"
proof (induction calls arbitrary: tries)
  case 0
  then show ?case by simp
next
  case (Suc calls)
  let ?rest = "checkWaveAvailability_test calls page doc (tries + 1)"
  have IH: "length (filter (\<lambda>d. d > wave_test_retryDelay) (fst ?rest)) \<le> wave_test_maxRetries - 1 - (tries + 1)"
    by (rule Suc)
  consider
    (short) "checkWaveAvailability_test (Suc calls) page doc tries = after_delay wave_test_retryDelay ?rest"
  | (long) "tries + 1 < wave_test_maxRetries"
      "checkWaveAvailability_test (Suc calls) page doc tries = after_delay (wave_test_retryDelay * 2) ?rest"
  | (stop) "fst (checkWaveAvailability_test (Suc calls) page doc tries) = []"
    using test_step_cases[of calls page doc tries] by blast
  then show ?case
  proof cases
    case short
    with IH show ?thesis by (simp add: after_delay_def del: checkWaveAvailability_test.simps)
  next
    case long
    with IH show ?thesis by (simp add: after_delay_def wave_test_retryDelay_def del: checkWaveAvailability_test.simps)
  next
    case stop
    then show ?thesis by (simp del: checkWaveAvailability_test.simps)
  qed
qed

lemma test_init_always_throws:
  assumes "\<forall>k. tries < k \<and> k \<le> wave_test_maxRetries \<longrightarrow> ready_init_throws (page k) (m k)"
    and "tries < wave_test_maxRetries"
    and "wave_test_maxRetries - tries \<le> calls"
  shows "checkWaveAvailability_test calls page doc tries =
           (replicate (wave_test_maxRetries - 1 - tries) (wave_test_retryDelay * 2),
            Some (Rejected (InitializationFailedAfterRetries (m wave_test_maxRetries))))"
  using assms
proof (induction calls arbitrary: tries)
  case 0
  then show ?case by simp
next
  case (Suc calls)
  have r: "ready_init_throws (page (tries + 1)) (m (tries + 1))" using Suc.prems by simp
  show ?case
  proof (cases "tries + 1 < wave_test_maxRetries")
    case True
    then have "checkWaveAvailability_test calls page doc (tries + 1) =
           (replicate (wave_test_maxRetries - 1 - (tries + 1)) (wave_test_retryDelay * 2),
            Some (Rejected (InitializationFailedAfterRetries (m wave_test_maxRetries))))"
      using Suc.prems by (intro Suc.IH) auto
    moreover have "wave_test_maxRetries - 1 - tries = Suc (wave_test_maxRetries - 1 - (tries + 1))"
      using True by simp
    ultimately show ?thesis
      using True test_init_throws_step[where page=page and tries=tries and message="m (tries + 1)" and calls=calls and doc=doc, OF r]
      by (simp add: after_delay_def del: checkWaveAvailability_test.simps)
  next
    case False
    with Suc.prems have "tries + 1 = wave_test_maxRetries" by simp
    with False show ?thesis
      using test_init_throws_step[where page=page and tries=tries and message="m (tries + 1)" and calls=calls and doc=doc, OF r]
      by (simp del: checkWaveAvailability_test.simps)
  qed
qed

lemma test_wave_never_appears:
  assumes "\<forall>k. tries < k \<and> k \<le> wave_test_maxRetries \<longrightarrow> \<not> wave_present (page k)"
    and "tries < wave_test_maxRetries"
    and "wave_test_maxRetries - tries \<le> calls"
  shows "checkWaveAvailability_test calls page doc tries =
           (replicate (wave_test_maxRetries - 1 - tries) wave_test_retryDelay,
            Some (Rejected (FailedToInitialize (int wave_test_maxRetries))))"
  using assms
proof (induction calls arbitrary: tries)
  case 0
  then show ?case by simp
next
  case (Suc calls)
  have r: "\<not> wave_present (page (tries + 1))" using Suc.prems by simp
  show ?case
  proof (cases "tries + 1 < wave_test_maxRetries")
    case True
    then have "checkWaveAvailability_test calls page doc (tries + 1) =
           (replicate (wave_test_maxRetries - 1 - (tries + 1)) wave_test_retryDelay,
            Some (Rejected (FailedToInitialize (int wave_test_maxRetries))))"
      using Suc.prems by (intro Suc.IH) auto
    moreover have "wave_test_maxRetries - 1 - tries = Suc (wave_test_maxRetries - 1 - (tries + 1))"
      using True by simp
    ultimately show ?thesis
      using True r by (simp add: after_delay_def)
  next
    case False
    with Suc.prems have "tries + 1 = wave_test_maxRetries" by simp
    with False r show ?thesis by simp
  qed
qed

lemma analyzer_wave_never_appears:
  assumes "\<forall>k. tries < k \<and> int k \<le> max (int tries + 1) config_maxRetries \<longrightarrow> \<not> wave_present (page k)"
  shows "checkWaveAvailability_analyzer page doc config_maxRetries config_retryDelay tries =
           (replicate (nat (config_maxRetries - 1 - int tries)) config_retryDelay,
            Some (Rejected (FailedToInitialize config_maxRetries)))"
  using assms
proof (induction page doc config_maxRetries config_retryDelay tries rule: checkWaveAvailability_analyzer.induct)
  case (1 page doc config_maxRetries config_retryDelay tries)
  have r: "\<not> wave_present (page (tries + 1))" using 1(2) by simp
  show ?case
  proof (cases "int (tries + 1) \<ge> config_maxRetries")
    case True
    with r show ?thesis by (subst checkWaveAvailability_analyzer.simps) simp
  next
    case False
    have "checkWaveAvailability_analyzer page doc config_maxRetries config_retryDelay (tries + 1) =
           (replicate (nat (config_maxRetries - 1 - int (tries + 1))) config_retryDelay,
            Some (Rejected (FailedToInitialize config_maxRetries)))"
      using 1(2) False by (intro 1(1)[OF r False]) auto
    moreover have "nat (config_maxRetries - 1 - int tries) = Suc (nat (config_maxRetries - 1 - int (tries + 1)))"
      using False by simp
    ultimately show ?thesis
      using False r by (subst checkWaveAvailability_analyzer.simps) (simp add: after_delay_def)
  qed
qed

lemma analyzer_init_throws:
  assumes "wave_present (page (tries + 1))" and "initialize (page (tries + 1)) = Some message"
  shows "checkWaveAvailability_analyzer page doc config_maxRetries config_retryDelay tries =
           ([], Some (Rejected (InitializationFailed message)))"
  using assms by (subst checkWaveAvailability_analyzer.simps) simp

text \<open>
  Claim C7, as stated, fails for the initializer of analyzer.js: there a throw of
  \<open>initialize()\<close> rejects the promise at once, with no timer set, although the attempt
  count (1) is below the maximum (50).
\<close>

theorem analyzer_rejects_without_retry:
  "wave_present (always_init_throws 1) \<and>
   initialize (always_init_throws 1) = Some (str ''boom'') \<and>
   checkWaveAvailability_analyzer always_init_throws sample_doc 50 100 0 =
     ([], Some (Rejected (InitializationFailed (str ''boom''))))"
  by (simp add: checkWaveAvailability_analyzer.simps always_init_throws_def page_init_throws_def
      page_without_wave_def)

text \<open>
  Claim C7, amended. In wave-test.ts, when the library is there, the document is ready and
  \<open>initialize()\<close> throws, the call sets a timer of twice the polling delay if the attempt
  count is below the maximum, and rejects with the message of the throw otherwise; a run
  sets fewer such long timers than the maximum; and if \<open>initialize()\<close> throws at every
  attempt, the promise is rejected at the last one. In analyzer.js a throw of
  \<open>initialize()\<close> rejects the promise at once. In both files, when the library is found at
  no attempt up to the maximum, the promise is rejected with
  \<open>WAVE failed to initialize after n attempts\<close>, \<open>n\<close> the maximum.
\<close>

theorem polling_initializer:
  "(ready_init_throws (page (tries + 1)) message \<longrightarrow>
      checkWaveAvailability_test (Suc calls) page doc tries =
        (if tries + 1 < wave_test_maxRetries
         then after_delay (wave_test_retryDelay * 2)
                (checkWaveAvailability_test calls page doc (tries + 1))
         else ([], Some (Rejected (InitializationFailedAfterRetries message))))) \<and>
   wave_test_retryDelay < wave_test_retryDelay * 2 \<and>
   length (filter (\<lambda>delay. wave_test_retryDelay < delay)
             (fst (checkWaveAvailability_test calls page doc 0))) < wave_test_maxRetries \<and>
   ((\<forall>k. 1 \<le> k \<and> k \<le> wave_test_maxRetries \<longrightarrow> ready_init_throws (page k) (m k)) \<and>
    wave_test_maxRetries \<le> calls \<longrightarrow>
      checkWaveAvailability_test calls page doc 0 =
        (replicate (wave_test_maxRetries - 1) (wave_test_retryDelay * 2),
         Some (Rejected (InitializationFailedAfterRetries (m wave_test_maxRetries))))) \<and>
   ((\<forall>k. 1 \<le> k \<and> k \<le> wave_test_maxRetries \<longrightarrow> \<not> wave_present (page k)) \<and>
    wave_test_maxRetries \<le> calls \<longrightarrow>
      checkWaveAvailability_test calls page doc 0 =
        (replicate (wave_test_maxRetries - 1) wave_test_retryDelay,
         Some (Rejected (FailedToInitialize (int wave_test_maxRetries))))) \<and>
   ((\<forall>k. 1 \<le> k \<and> int k \<le> max 1 config_maxRetries \<longrightarrow> \<not> wave_present (page k)) \<longrightarrow>
      checkWaveAvailability_analyzer page doc config_maxRetries config_retryDelay 0 =
        (replicate (nat (config_maxRetries - 1)) config_retryDelay,
         Some (Rejected (FailedToInitialize config_maxRetries)))) \<and>
   (wave_present (page (tries + 1)) \<and> initialize (page (tries + 1)) = Some message \<longrightarrow>
      checkWaveAvailability_analyzer page doc config_maxRetries config_retryDelay tries =
        ([], Some (Rejected (InitializationFailed message))))"
proof (intro conjI impI)
  show "checkWaveAvailability_test (Suc calls) page doc tries =
        (if tries + 1 < wave_test_maxRetries
         then after_delay (wave_test_retryDelay * 2)
                (checkWaveAvailability_test calls page doc (tries + 1))
         else ([], Some (Rejected (InitializationFailedAfterRetries message))))"
    if "ready_init_throws (page (tries + 1)) message"
    using that by (rule test_init_throws_step)
  show "wave_test_retryDelay < wave_test_retryDelay * 2"
    by (simp add: wave_test_retryDelay_def)
  show "length (filter (\<lambda>delay. wave_test_retryDelay < delay)
             (fst (checkWaveAvailability_test calls page doc 0))) < wave_test_maxRetries"
    using test_long_delays_bounded[of calls page doc 0] by (simp add: wave_test_maxRetries_def)
  show "checkWaveAvailability_test calls page doc 0 =
        (replicate (wave_test_maxRetries - 1) (wave_test_retryDelay * 2),
         Some (Rejected (InitializationFailedAfterRetries (m wave_test_maxRetries))))"
    if "(\<forall>k. 1 \<le> k \<and> k \<le> wave_test_maxRetries \<longrightarrow> ready_init_throws (page k) (m k)) \<and>
        wave_test_maxRetries \<le> calls"
    using that test_init_always_throws[of 0 page m calls doc]
    by (simp add: wave_test_maxRetries_def Suc_le_eq)
  show "checkWaveAvailability_test calls page doc 0 =
        (replicate (wave_test_maxRetries - 1) wave_test_retryDelay,
         Some (Rejected (FailedToInitialize (int wave_test_maxRetries))))"
    if "(\<forall>k. 1 \<le> k \<and> k \<le> wave_test_maxRetries \<longrightarrow> \<not> wave_present (page k)) \<and>
        wave_test_maxRetries \<le> calls"
    using that test_wave_never_appears[of 0 page calls doc]
    by (simp add: wave_test_maxRetries_def Suc_le_eq)
  show "checkWaveAvailability_analyzer page doc config_maxRetries config_retryDelay 0 =
        (replicate (nat (config_maxRetries - 1)) config_retryDelay,
         Some (Rejected (FailedToInitialize config_maxRetries)))"
    if "\<forall>k. 1 \<le> k \<and> int k \<le> max 1 config_maxRetries \<longrightarrow> \<not> wave_present (page k)"
    using that analyzer_wave_never_appears[of 0 config_maxRetries page doc config_retryDelay]
    by (simp add: Suc_le_eq)
  show "checkWaveAvailability_analyzer page doc config_maxRetries config_retryDelay tries =
        ([], Some (Rejected (InitializationFailed message)))"
    if "wave_present (page (tries + 1)) \<and> initialize (page (tries + 1)) = Some message"
    using that by (simp add: analyzer_init_throws)
qed

theorem polling_initializer_witness:
  "ready_init_throws (always_init_throws 1) (str ''boom'') \<and>
   (\<forall>k. ready_init_throws (always_init_throws k) (str ''boom'')) \<and>
   checkWaveAvailability_test 1 always_init_throws sample_doc 0 = ([400], None) \<and>
   checkWaveAvailability_test 100 always_init_throws sample_doc 0 =
     (replicate 99 400, Some (Rejected (InitializationFailedAfterRetries (str ''boom'')))) \<and>
   (\<forall>k. \<not> wave_present (never_with_wave k)) \<and>
   checkWaveAvailability_test 100 never_with_wave sample_doc 0 =
     (replicate 99 200, Some (Rejected (FailedToInitialize 100))) \<and>
   checkWaveAvailability_analyzer never_with_wave sample_doc 50 100 0 =
     (replicate 49 100, Some (Rejected (FailedToInitialize 50))) \<and>
   wave_present (always_init_throws 1) \<and> initialize (always_init_throws 1) = Some (str ''boom'') \<and>
   checkWaveAvailability_analyzer always_init_throws sample_doc 50 100 0 =
     ([], Some (Rejected (InitializationFailed (str ''boom''))))"
proof -
  have r: "ready_init_throws (always_init_throws k) (str ''boom'')" for k
    by (simp add: ready_init_throws_def always_init_throws_def page_init_throws_def page_without_wave_def)
  have n: "\<not> wave_present (never_with_wave k)" for k
    by (simp add: never_with_wave_def page_without_wave_def)
  have p: "wave_present (always_init_throws 1) \<and> initialize (always_init_throws 1) = Some (str ''boom'')"
    by (simp add: always_init_throws_def page_init_throws_def page_without_wave_def)
  note t1 = polling_initializer[where page=always_init_throws and tries=0 and message="str ''boom''"
      and calls=0 and doc=sample_doc and m="\<lambda>k. str ''boom''" and config_maxRetries=50 and config_retryDelay=100]
  note t2 = polling_initializer[where page=always_init_throws and tries=0 and message="str ''boom''"
      and calls=100 and doc=sample_doc and m="\<lambda>k. str ''boom''" and config_maxRetries=50 and config_retryDelay=100]
  note t3 = polling_initializer[where page=never_with_wave and tries=0 and message="str ''boom''"
      and calls=100 and doc=sample_doc and m="\<lambda>k. str ''boom''" and config_maxRetries=50 and config_retryDelay=100]
  have a: "checkWaveAvailability_test 1 always_init_throws sample_doc 0 = ([400], None)"
    using t1 r[of 1] by (simp add: wave_test_maxRetries_def wave_test_retryDelay_def after_delay_def)
  have b: "checkWaveAvailability_test 100 always_init_throws sample_doc 0 =
     (replicate 99 400, Some (Rejected (InitializationFailedAfterRetries (str ''boom''))))"
    using t2 r by (simp add: wave_test_maxRetries_def wave_test_retryDelay_def del: checkWaveAvailability_test.simps)
  have c: "checkWaveAvailability_test 100 never_with_wave sample_doc 0 =
     (replicate 99 200, Some (Rejected (FailedToInitialize 100)))"
    using t3 n by (simp add: wave_test_maxRetries_def wave_test_retryDelay_def del: checkWaveAvailability_test.simps)
  have d: "checkWaveAvailability_analyzer never_with_wave sample_doc 50 100 0 =
     (replicate 49 100, Some (Rejected (FailedToInitialize 50)))"
    using t3 n by simp
  have e: "checkWaveAvailability_analyzer always_init_throws sample_doc 50 100 0 =
     ([], Some (Rejected (InitializationFailed (str ''boom''))))"
    using t1 p by simp
  show ?thesis using r n p a b c d e by simp
qed

subsection \<open>The enhancer writes to its copy only\<close>

lemma same_below_refl: "same_below n h h"
  by (simp add: same_below_def)

lemma same_below_trans: "same_below n h1 h2 \<Longrightarrow> same_below n h2 h3 \<Longrightarrow> same_below n h1 h3"
  by (simp add: same_below_def)

lemma same_below_mono: "same_below n h h' \<Longrightarrow> m \<le> n \<Longrightarrow> same_below m h h'"
  by (simp add: same_below_def)

lemma same_shape_refl: "same_shape h h"
  by (simp add: same_shape_def)

lemma same_shape_trans: "same_shape h1 h2 \<Longrightarrow> same_shape h2 h3 \<Longrightarrow> same_shape h1 h3"
  by (simp add: same_shape_def)

lemma fresh_category_shape:
  assumes "same_shape h h'"
  shows "fresh_category n h' c = fresh_category n h c"
proof -
  from assms have "next_free h' = next_free h"
    "items_field (category_objects h' c) = items_field (category_objects h c)"
    by (simp_all add: same_shape_def)
  then show ?thesis by (simp add: fresh_category_def split: option.splits)
qed

lemma same_below_chain:
  "same_below n h1 h2 \<Longrightarrow> same_below m h2 h3 \<Longrightarrow> n \<le> m \<Longrightarrow> same_below n h1 h3"
  by (auto simp: same_below_def)

lemma list_all_mono: "list_all P xs \<Longrightarrow> (\<And>x. P x \<Longrightarrow> Q x) \<Longrightarrow> list_all Q xs"
  by (induction xs) auto

lemma fresh_category_later:
  assumes "fresh_category n h c" "same_below (next_free h) h h'" "next_free h \<le> next_free h'" "m \<le> n"
  shows "fresh_category m h' c"
proof -
  from assms(1) have c: "n \<le> c" "c < next_free h" by (simp_all add: fresh_category_def)
  with assms(2) have eq: "category_objects h' c = category_objects h c" by (simp add: same_below_def)
  show ?thesis
  proof (cases "items_field (category_objects h c)")
    case None
    with c eq assms(3,4) show ?thesis by (simp add: fresh_category_def)
  next
    case (Some refs)
    with assms(1) have "list_all (\<lambda>(itemKey, i). n \<le> i \<and> i < next_free h) refs"
      by (simp add: fresh_category_def)
    then have "list_all (\<lambda>(itemKey, i). m \<le> i \<and> i < next_free h') refs"
      by (rule list_all_mono) (use assms(3,4) in auto)
    with c eq Some assms(3,4) show ?thesis by (simp add: fresh_category_def)
  qed
qed

lemma parse_items_frame:
  "parse_items l h = (refs, h') \<Longrightarrow>
     next_free h \<le> next_free h' \<and> same_below (next_free h) h h' \<and>
     category_objects h' = category_objects h \<and> results_objects h' = results_objects h \<and>
     list_all (\<lambda>(itemKey, i). next_free h \<le> i \<and> i < next_free h') refs"
proof (induction l arbitrary: h refs h')
  case Nil
  then show ?case by (simp add: same_below_def)
next
  case (Cons p l)
  obtain itemKey item where p: "p = (itemKey, item)" by (cases p)
  obtain i h1 where n: "new_rule item h = (i, h1)" by (cases "new_rule item h")
  obtain refs1 h2 where r: "parse_items l h1 = (refs1, h2)" by (cases "parse_items l h1")
  from Cons.prems p n r have out: "refs = (itemKey, i) # refs1" "h' = h2" by simp_all
  from n have h1: "i = next_free h" "next_free h1 = next_free h + 1"
    "category_objects h1 = category_objects h" "results_objects h1 = results_objects h"
    "same_below (next_free h) h h1"
    by (auto simp: new_rule_def same_below_def)
  note IH = Cons.IH[OF r]
  from IH have l: "list_all (\<lambda>(itemKey, i). next_free h1 \<le> i \<and> i < next_free h2) refs1"
    and sb: "same_below (next_free h1) h1 h2" by simp_all
  have "list_all (\<lambda>(itemKey, i). next_free h \<le> i \<and> i < next_free h2) refs1"
    using l by (rule list_all_mono) (use h1(2) in auto)
  moreover have "same_below (next_free h) h h2"
    using h1(5) sb by (rule same_below_chain) (simp add: h1(2))
  ultimately show ?case using IH h1 out by simp
qed

lemma parse_category_frame:
  assumes "parse_category category h = (c, h')"
  shows "next_free h \<le> next_free h' \<and> same_below (next_free h) h h' \<and>
         results_objects h' = results_objects h \<and> fresh_category (next_free h) h' c"
proof (cases "items category")
  case None
  with assms show ?thesis
    by (auto simp: parse_category_def new_category_def same_below_def fresh_category_def)
next
  case (Some its)
  obtain refs h1 where r: "parse_items its h = (refs, h1)" by (cases "parse_items its h")
  note f = parse_items_frame[OF r]
  from assms Some r have out: "c = next_free h1"
    "h' = h1 \<lparr> category_objects := (category_objects h1)(next_free h1 := \<lparr> count_field = cat_count category, items_field = Some refs \<rparr>),
              next_free := next_free h1 + 1 \<rparr>"
    by (auto simp: parse_category_def new_category_def)
  from f have l: "list_all (\<lambda>(itemKey, i). next_free h \<le> i \<and> i < next_free h1) refs" by simp
  have "list_all (\<lambda>(itemKey, i). next_free h \<le> i \<and> i < next_free h1 + 1) refs"
    using l by (rule list_all_mono) auto
  then have "fresh_category (next_free h) h' c"
    using f out by (simp add: fresh_category_def)
  moreover have "same_below (next_free h) h h'"
    using f out by (auto simp: same_below_def)
  ultimately show ?thesis using f out by simp
qed

lemma parse_categories_frame:
  "parse_categories l h = (refs, h') \<Longrightarrow>
     next_free h \<le> next_free h' \<and> same_below (next_free h) h h' \<and>
     results_objects h' = results_objects h \<and>
     list_all (\<lambda>(categoryKey, c). fresh_category (next_free h) h' c) refs"
proof (induction l arbitrary: h refs h')
  case Nil
  then show ?case by (simp add: same_below_def)
next
  case (Cons p l)
  obtain categoryKey category where p: "p = (categoryKey, category)" by (cases p)
  obtain c h1 where n: "parse_category category h = (c, h1)" by (cases "parse_category category h")
  obtain refs1 h2 where r: "parse_categories l h1 = (refs1, h2)" by (cases "parse_categories l h1")
  from Cons.prems p n r have out: "refs = (categoryKey, c) # refs1" "h' = h2" by simp_all
  note f = parse_category_frame[OF n]
  note IH = Cons.IH[OF r]
  from f have fc: "fresh_category (next_free h) h1 c" and le1: "next_free h \<le> next_free h1"
    and sb1: "same_below (next_free h) h h1" by simp_all
  from IH have sb2: "same_below (next_free h1) h1 h2" and le2: "next_free h1 \<le> next_free h2" by simp_all
  have "fresh_category (next_free h) h2 c"
    using fc sb2 le2 by (rule fresh_category_later) simp
  moreover have "list_all (\<lambda>(categoryKey, c). fresh_category (next_free h) h2 c) refs1"
  proof -
    have "list_all (\<lambda>(categoryKey, c). fresh_category (next_free h1) h2 c) refs1" using IH by simp
    then show ?thesis
    proof (rule list_all_mono)
      fix x :: "jstring \<times> addr"
      assume "case x of (categoryKey, c) \<Rightarrow> fresh_category (next_free h1) h2 c"
      then have "fresh_category (next_free h1) h2 (snd x)" by (cases x) simp
      then have "fresh_category (next_free h) h2 (snd x)"
        using same_below_refl by (rule fresh_category_later) (simp_all add: le1)
      then show "case x of (categoryKey, c) \<Rightarrow> fresh_category (next_free h) h2 c" by (cases x) simp
    qed
  qed
  moreover have "same_below (next_free h) h h2"
    using sb1 sb2 le1 by (rule same_below_chain)
  ultimately show ?case using f IH out by simp
qed

lemma parse_results_frame:
  assumes "parse_results r h = (a, h')"
  shows "next_free h \<le> next_free h' \<and> same_below (next_free h) h h' \<and> fresh_results (next_free h) h' a"
proof (cases "categories r")
  case None
  with assms show ?thesis
    by (auto simp: parse_results_def new_results_def same_below_def fresh_results_def)
next
  case (Some cats)
  obtain refs h1 where r: "parse_categories cats h = (refs, h1)" by (cases "parse_categories cats h")
  note f = parse_categories_frame[OF r]
  let ?obj = "\<lparr> categories_field = Some refs, statistics_field = statistics r \<rparr>"
  from assms Some r have out: "a = next_free h1"
    "h' = h1 \<lparr> results_objects := (results_objects h1)(next_free h1 := ?obj), next_free := next_free h1 + 1 \<rparr>"
    by (auto simp: parse_results_def new_results_def)
  have sb: "same_below (next_free h1) h1 h'" "next_free h1 \<le> next_free h'"
    using out by (simp_all add: same_below_def)
  have "list_all (\<lambda>(categoryKey, c). fresh_category (next_free h) h' c) refs"
  proof -
    have "list_all (\<lambda>(categoryKey, c). fresh_category (next_free h) h1 c) refs" using f by simp
    then show ?thesis
    proof (rule list_all_mono)
      fix x :: "jstring \<times> addr"
      assume "case x of (categoryKey, c) \<Rightarrow> fresh_category (next_free h) h1 c"
      then have "fresh_category (next_free h) h1 (snd x)" by (cases x) simp
      then have "fresh_category (next_free h) h' (snd x)"
        using sb by (rule fresh_category_later) simp
      then show "case x of (categoryKey, c) \<Rightarrow> fresh_category (next_free h) h' c" by (cases x) simp
    qed
  qed
  then have "fresh_results (next_free h) h' a"
    using f out by (simp add: fresh_results_def)
  moreover have "same_below (next_free h) h h'"
  proof -
    from f have "same_below (next_free h) h h1" "next_free h \<le> next_free h1" by simp_all
    with sb(1) show ?thesis by (auto intro: same_below_chain)
  qed
  ultimately show ?thesis using f out by simp
qed

lemma enhance_item_fold_frame:
  "list_all (\<lambda>(itemKey, i). n \<le> i) refs \<Longrightarrow>
     same_below n h (foldl (\<lambda>h (itemKey, i). enhance_item_at doc i h) h refs) \<and>
     same_shape h (foldl (\<lambda>h (itemKey, i). enhance_item_at doc i h) h refs) \<and>
     category_objects (foldl (\<lambda>h (itemKey, i). enhance_item_at doc i h) h refs) = category_objects h"
proof (induction refs arbitrary: h)
  case Nil
  then show ?case by (simp add: same_below_def same_shape_def)
next
  case (Cons p refs)
  obtain itemKey i where p: "p = (itemKey, i)" by (cases p)
  let ?h1 = "enhance_item_at doc i h"
  from Cons.prems p have i: "n \<le> i" and rest: "list_all (\<lambda>(itemKey, i). n \<le> i) refs" by simp_all
  have 1: "same_below n h ?h1" "same_shape h ?h1" "category_objects ?h1 = category_objects h"
    using i by (auto simp: enhance_item_at_def same_below_def same_shape_def)
  note IH = Cons.IH[OF rest, of ?h1]
  show ?case
    using 1 IH by (auto simp: p intro: same_below_trans same_shape_trans)
qed

lemma enhance_items_at_frame:
  assumes "fresh_category n h c"
  shows "same_below n h (enhance_items_at doc c h) \<and> same_shape h (enhance_items_at doc c h)"
proof (cases "items_field (category_objects h c)")
  case None
  then show ?thesis by (simp add: enhance_items_at_def same_below_def same_shape_def)
next
  case (Some refs)
  with assms have "list_all (\<lambda>(itemKey, i). n \<le> i \<and> i < next_free h) refs"
    by (simp add: fresh_category_def)
  then have "list_all (\<lambda>(itemKey, i). n \<le> i) refs"
    by (rule list_all_mono) auto
  from enhance_item_fold_frame[OF this, of h doc] Some show ?thesis
    by (simp add: enhance_items_at_def)
qed

lemma recalculate_count_at_frame:
  assumes "fresh_category n h c"
  shows "same_below n h (recalculate_count_at c h) \<and> same_shape h (recalculate_count_at c h)"
  using assms
  by (auto simp: recalculate_count_at_def same_below_def same_shape_def fresh_category_def
      split: option.splits)

lemma category_fold_frame:
  assumes step: "\<And>h c. fresh_category n h c \<Longrightarrow> same_below n h (f c h) \<and> same_shape h (f c h)"
  shows "list_all (\<lambda>(categoryKey, c). fresh_category n h c) (refs :: (jstring \<times> addr) list) \<Longrightarrow>
     same_below n h (foldl (\<lambda>h (categoryKey, c). f c h) h refs) \<and>
     same_shape h (foldl (\<lambda>h (categoryKey, c). f c h) h refs)"
proof (induction refs arbitrary: h)
  case Nil
  then show ?case by (simp add: same_below_def same_shape_def)
next
  case (Cons p refs)
  obtain categoryKey c where p: "p = (categoryKey, c)" by (cases p)
  from Cons.prems p have c: "fresh_category n h c"
    and rest: "list_all (\<lambda>(categoryKey, c). fresh_category n h c) refs" by simp_all
  note 1 = step[OF c]
  have rest': "list_all (\<lambda>(categoryKey, c'). fresh_category n (f c h) c') refs"
    using rest
  proof (rule list_all_mono)
    fix x :: "jstring \<times> addr"
    assume "case x of (categoryKey, c) \<Rightarrow> fresh_category n h c"
    then show "case x of (categoryKey, c') \<Rightarrow> fresh_category n (f c h) c'"
      using fresh_category_shape[of h "f c h" n] 1 by (cases x) simp
  qed
  note IH = Cons.IH[OF rest']
  show ?case
    using 1 IH by (auto simp: p intro: same_below_trans same_shape_trans)
qed

lemma filtered_refs_fresh:
  assumes "fresh_results n h enhanced"
  shows "list_all (\<lambda>(categoryKey, c). fresh_category n h c) (filtered_refs h enhanced)"
proof (cases "categories_field (results_objects h enhanced)")
  case None
  then show ?thesis by (simp add: filtered_refs_def)
next
  case (Some cats)
  with assms have all: "list_all (\<lambda>(categoryKey, c). fresh_category n h c) cats"
    by (simp add: fresh_results_def)
  have "fresh_category n h c" if "map_of cats k = Some c" for k c
    using all map_of_SomeD[OF that] by (auto simp: list_all_iff)
  then show ?thesis
    using Some by (auto simp: filtered_refs_def split: option.splits)
qed

lemma enhance_in_heap_frame:
  assumes "enhance_in_heap doc results h = (enhanced, h')"
  shows "same_below (next_free h) h h' \<and> next_free h \<le> enhanced \<and> enhanced < next_free h' \<and>
         next_free h \<le> next_free h'"
proof -
  let ?n = "next_free h"
  obtain e h1 where p: "parse_results (stringify_results h results) h = (e, h1)"
    by (cases "parse_results (stringify_results h results) h")
  note f = parse_results_frame[OF p]
  let ?filtered = "filtered_refs h1 e"
  let ?h2 = "foldl (\<lambda>h (categoryKey, c). enhance_items_at doc c h) h1 ?filtered"
  let ?h3 = "foldl (\<lambda>h (categoryKey, c). recalculate_count_at c h) ?h2 ?filtered"
  let ?h4 = "?h3 \<lparr> results_objects := (results_objects ?h3)
                   (e := (results_objects ?h3 e) \<lparr> categories_field := Some ?filtered \<rparr>) \<rparr>"
  from assms p have out: "enhanced = e" "h' = ?h4"
    by (auto simp: enhance_in_heap_def Let_def)
  from f have e: "?n \<le> e" "e < next_free h1" by (simp_all add: fresh_results_def)
  have fr1: "list_all (\<lambda>(categoryKey, c). fresh_category ?n h1 c) ?filtered"
    using f by (intro filtered_refs_fresh) simp
  have 2: "same_below ?n h1 ?h2" "same_shape h1 ?h2"
    using category_fold_frame[where f="enhance_items_at doc" and n="?n", OF enhance_items_at_frame fr1]
    by simp_all
  have fr2: "list_all (\<lambda>(categoryKey, c). fresh_category ?n ?h2 c) ?filtered"
    using fr1
  proof (rule list_all_mono)
    fix x :: "jstring \<times> addr"
    assume "case x of (categoryKey, c) \<Rightarrow> fresh_category ?n h1 c"
    then show "case x of (categoryKey, c) \<Rightarrow> fresh_category ?n ?h2 c"
      using fresh_category_shape[OF 2(2), of ?n] by (cases x) simp
  qed
  have 3: "same_below ?n ?h2 ?h3" "same_shape ?h2 ?h3"
    using category_fold_frame[where f="recalculate_count_at" and n="?n", OF recalculate_count_at_frame fr2]
    by simp_all
  have 4: "same_below ?n ?h3 ?h4" "next_free ?h4 = next_free ?h3"
    using e by (simp_all add: same_below_def)
  have "same_below ?n h ?h4"
    using f 2(1) 3(1) 4(1) by (blast intro: same_below_trans)
  moreover have "next_free ?h4 = next_free h1"
    using 2(2) 3(2) 4(2) by (simp add: same_shape_def)
  ultimately show ?thesis using out e f by simp
qed

lemma stringify_same_below:
  assumes "same_below n h h'" "results_allocated h r" "next_free h \<le> n"
  shows "stringify_results h' r = stringify_results h r"
proof -
  from assms have r: "results_objects h' r = results_objects h r"
    by (simp add: same_below_def results_allocated_def)
  have c: "stringify_category h' c = stringify_category h c" if "category_allocated h c" for c
  proof -
    from that assms have co: "category_objects h' c = category_objects h c"
      by (simp add: same_below_def category_allocated_def)
    have "map (\<lambda>(itemKey, i). (itemKey, rule_objects h' i)) refs = map (\<lambda>(itemKey, i). (itemKey, rule_objects h i)) refs"
      if "items_field (category_objects h c) = Some refs" for refs
      using that \<open>category_allocated h c\<close> assms(1,3)
      by (auto simp: category_allocated_def same_below_def list_all_iff)
    then show ?thesis
      by (cases "items_field (category_objects h c)") (simp_all add: stringify_category_def co)
  qed
  have "map (\<lambda>(categoryKey, c). (categoryKey, stringify_category h' c)) refs
      = map (\<lambda>(categoryKey, c). (categoryKey, stringify_category h c)) refs"
    if "categories_field (results_objects h r) = Some refs" for refs
    using that assms(2) c by (auto simp: results_allocated_def list_all_iff)
  then show ?thesis
    by (cases "categories_field (results_objects h r)") (simp_all add: stringify_results_def r)
qed

subsection \<open>The copy ends as the enhanced result\<close>

lemma new_rule_props:
  assumes "new_rule item h = (i, h1)"
  shows "i = next_free h" "next_free h1 = next_free h + 1" "rule_objects h1 i = item"
  using assms by (auto simp: new_rule_def)

lemma parse_items_content:
  "parse_items l h = (refs, h') \<Longrightarrow>
     map (\<lambda>(itemKey, i). (itemKey, rule_objects h' i)) refs = l \<and> distinct (map snd refs)"
proof (induction l arbitrary: h refs h')
  case Nil
  then show ?case by simp
next
  case (Cons p l)
  obtain itemKey item where p: "p = (itemKey, item)" by (cases p)
  obtain i h1 where n: "new_rule item h = (i, h1)" by (cases "new_rule item h")
  obtain refs1 h2 where r: "parse_items l h1 = (refs1, h2)" by (cases "parse_items l h1")
  from Cons.prems p n r have out: "refs = (itemKey, i) # refs1" "h' = h2" by simp_all
  note np = new_rule_props[OF n]
  note f = parse_items_frame[OF r]
  note IH = Cons.IH[OF r]
  from f np have "rule_objects h2 i = item" by (simp add: same_below_def)
  moreover have "i \<notin> snd ` set refs1"
    using f np by (auto simp: list_all_iff)
  ultimately show ?case using IH out p by simp
qed

lemma parse_category_content:
  assumes "parse_category category h = (c, h')"
  shows "stringify_category h' c = category \<and> distinct (item_addrs h' c)"
proof (cases "items category")
  case None
  with assms show ?thesis
    by (auto simp: parse_category_def new_category_def stringify_category_def item_addrs_def)
next
  case (Some its)
  obtain refs h1 where r: "parse_items its h = (refs, h1)" by (cases "parse_items its h")
  note pc = parse_items_content[OF r]
  from assms Some r have out: "c = next_free h1"
    "h' = h1 \<lparr> category_objects := (category_objects h1)(next_free h1 := \<lparr> count_field = cat_count category, items_field = Some refs \<rparr>),
              next_free := next_free h1 + 1 \<rparr>"
    by (auto simp: parse_category_def new_category_def)
  show ?thesis
    using pc Some by (simp add: out stringify_category_def item_addrs_def)
qed

lemma fresh_category_stable:
  assumes "fresh_category n h c" "same_below (next_free h) h h'"
  shows "stringify_category h' c = stringify_category h c" "item_addrs h' c = item_addrs h c"
proof -
  from assms have co: "category_objects h' c = category_objects h c"
    by (simp add: fresh_category_def same_below_def)
  then show "item_addrs h' c = item_addrs h c" by (simp add: item_addrs_def)
  have "map (\<lambda>(itemKey, i). (itemKey, rule_objects h' i)) refs = map (\<lambda>(itemKey, i). (itemKey, rule_objects h i)) refs"
    if "items_field (category_objects h c) = Some refs" for refs
    using that assms by (auto simp: fresh_category_def same_below_def list_all_iff)
  then show "stringify_category h' c = stringify_category h c"
    by (cases "items_field (category_objects h c)") (simp_all add: stringify_category_def co)
qed

lemma fresh_category_addrs:
  assumes "fresh_category n h c"
  shows "n \<le> c" "c < next_free h" "\<forall>i \<in> set (item_addrs h c). n \<le> i \<and> i < next_free h"
  using assms by (auto simp: fresh_category_def item_addrs_def list_all_iff split: option.splits)

lemma parse_categories_content:
  "parse_categories l h = (refs, h') \<Longrightarrow>
     map (\<lambda>(categoryKey, c). (categoryKey, stringify_category h' c)) refs = l \<and> separate h' refs"
proof (induction l arbitrary: h refs h')
  case Nil
  then show ?case by (simp add: separate_def)
next
  case (Cons p l)
  obtain categoryKey category where p: "p = (categoryKey, category)" by (cases p)
  obtain c h1 where n: "parse_category category h = (c, h1)" by (cases "parse_category category h")
  obtain refs1 h2 where r: "parse_categories l h1 = (refs1, h2)" by (cases "parse_categories l h1")
  from Cons.prems p n r have out: "refs = (categoryKey, c) # refs1" "h' = h2" by simp_all
  note f1 = parse_category_frame[OF n]
  note c1 = parse_category_content[OF n]
  note f2 = parse_categories_frame[OF r]
  note IH = Cons.IH[OF r]
  from f1 have fc: "fresh_category (next_free h) h1 c" by simp
  from f2 have sb: "same_below (next_free h1) h1 h2" by simp
  note st = fresh_category_stable[OF fc sb]
  note a1 = fresh_category_addrs[OF fc]
  have later: "next_free h1 \<le> c' \<and> (\<forall>i \<in> set (item_addrs h2 c'). next_free h1 \<le> i)"
    if "(k, c') \<in> set refs1" for k c'
  proof -
    from f2 that have "fresh_category (next_free h1) h2 c'" by (auto simp: list_all_iff)
    from fresh_category_addrs[OF this] show ?thesis by auto
  qed
  have d1: "c \<notin> snd ` set refs1" using later a1(2) by fastforce
  have d2: "set (item_addrs h1 c) \<inter> set (concat (map (\<lambda>(categoryKey, c). item_addrs h2 c) refs1)) = {}"
    using later a1(3) by fastforce
  have "separate h2 ((categoryKey, c) # refs1)"
    using IH d1 d2 c1 st(2) by (simp add: separate_def)
  then show ?case using IH c1 st(1) out p by simp
qed

lemma parse_results_content:
  assumes "parse_results r h = (a, h')"
  shows "stringify_results h' a = r \<and>
         (case categories_field (results_objects h' a) of None \<Rightarrow> True | Some refs \<Rightarrow> separate h' refs)"
proof (cases "categories r")
  case None
  with assms show ?thesis
    by (auto simp: parse_results_def new_results_def stringify_results_def)
next
  case (Some cats)
  obtain refs h1 where p: "parse_categories cats h = (refs, h1)" by (cases "parse_categories cats h")
  note pc = parse_categories_content[OF p]
  let ?obj = "\<lparr> categories_field = Some refs, statistics_field = statistics r \<rparr>"
  from assms Some p have out: "a = next_free h1"
    "h' = h1 \<lparr> results_objects := (results_objects h1)(next_free h1 := ?obj), next_free := next_free h1 + 1 \<rparr>"
    by (auto simp: parse_results_def new_results_def)
  have sc: "stringify_category h' c = stringify_category h1 c" for c
    by (simp add: out stringify_category_def)
  have ia: "item_addrs h' c = item_addrs h1 c" for c
    by (simp add: out item_addrs_def)
  have "separate h' refs" using pc by (simp add: separate_def ia)
  moreover have "stringify_results h' a = r"
    using pc Some by (simp add: stringify_results_def out(1) sc) (simp add: out)
  ultimately show ?thesis by (simp add: out)
qed

lemma enhance_item_fold_content:
  "distinct (map snd refs) \<Longrightarrow>
     rule_objects (foldl (\<lambda>h (itemKey, i). enhance_item_at doc i h) h refs) a =
       (if a \<in> snd ` set refs then enhance_item doc (rule_objects h a) else rule_objects h a)"
proof (induction refs arbitrary: h)
  case Nil
  then show ?case by simp
next
  case (Cons p refs)
  obtain itemKey i where p: "p = (itemKey, i)" by (cases p)
  from Cons.prems p have d: "distinct (map snd refs)" and ni: "i \<notin> snd ` set refs" by simp_all
  show ?case
    using Cons.IH[OF d, of "enhance_item_at doc i h"] ni
    by (auto simp: p enhance_item_at_def)
qed

lemma enhance_items_at_content:
  assumes "distinct (item_addrs h c)"
  shows "rule_objects (enhance_items_at doc c h) a =
           (if a \<in> set (item_addrs h c) then enhance_item doc (rule_objects h a) else rule_objects h a)"
    and "category_objects (enhance_items_at doc c h) = category_objects h"
    and "results_objects (enhance_items_at doc c h) = results_objects h"
proof -
  show "rule_objects (enhance_items_at doc c h) a =
           (if a \<in> set (item_addrs h c) then enhance_item doc (rule_objects h a) else rule_objects h a)"
  proof (cases "items_field (category_objects h c)")
    case None
    then show ?thesis by (simp add: enhance_items_at_def item_addrs_def)
  next
    case (Some refs)
    with assms have "distinct (map snd refs)" by (simp add: item_addrs_def)
    from enhance_item_fold_content[OF this] Some show ?thesis
      by (simp add: enhance_items_at_def item_addrs_def)
  qed
  have "category_objects (foldl (\<lambda>h (itemKey, i). enhance_item_at doc i h) h refs) = category_objects h \<and>
        results_objects (foldl (\<lambda>h (itemKey, i). enhance_item_at doc i h) h refs) = results_objects h"
    for refs :: "(jstring \<times> addr) list"
    by (induction refs arbitrary: h) (auto simp: enhance_item_at_def)
  then show "category_objects (enhance_items_at doc c h) = category_objects h"
    "results_objects (enhance_items_at doc c h) = results_objects h"
    by (simp_all add: enhance_items_at_def split: option.splits)
qed

lemma enhance_categories_content:
  "distinct (concat (map (\<lambda>(categoryKey, c). item_addrs h c) refs)) \<Longrightarrow>
     (\<forall>a. rule_objects (foldl (\<lambda>h (categoryKey, c). enhance_items_at doc c h) h refs) a =
        (if a \<in> set (concat (map (\<lambda>(categoryKey, c). item_addrs h c) refs))
         then enhance_item doc (rule_objects h a) else rule_objects h a)) \<and>
     category_objects (foldl (\<lambda>h (categoryKey, c). enhance_items_at doc c h) h refs) = category_objects h \<and>
     results_objects (foldl (\<lambda>h (categoryKey, c). enhance_items_at doc c h) h refs) = results_objects h"
proof (induction refs arbitrary: h)
  case Nil
  then show ?case by simp
next
  case (Cons p refs)
  obtain categoryKey c where p: "p = (categoryKey, c)" by (cases p)
  let ?h1 = "enhance_items_at doc c h"
  from Cons.prems p have d1: "distinct (item_addrs h c)"
    and d2: "distinct (concat (map (\<lambda>(categoryKey, c). item_addrs h c) refs))"
    and dj: "set (item_addrs h c) \<inter> set (concat (map (\<lambda>(categoryKey, c). item_addrs h c) refs)) = {}"
    by simp_all
  note c1 = enhance_items_at_content[OF d1, of doc]
  have ia: "item_addrs ?h1 c' = item_addrs h c'" for c'
    by (simp add: item_addrs_def c1(2))
  from d2 have d2': "distinct (concat (map (\<lambda>(categoryKey, c). item_addrs ?h1 c) refs))"
    by (simp add: ia)
  define R where "R = set (concat (map (\<lambda>(categoryKey, c). item_addrs h c) refs))"
  define h2 where "h2 = foldl (\<lambda>h (categoryKey, c). enhance_items_at doc c h) ?h1 refs"
  from Cons.IH[OF d2', unfolded ia, folded R_def h2_def]
  have IH: "\<And>a. rule_objects h2 a = (if a \<in> R then enhance_item doc (rule_objects ?h1 a) else rule_objects ?h1 a)"
    "category_objects h2 = category_objects ?h1" "results_objects h2 = results_objects ?h1"
    by simp_all
  from dj have dj': "\<And>a. a \<in> set (item_addrs h c) \<Longrightarrow> a \<notin> R" unfolding R_def by blast
  have "rule_objects h2 a =
        (if a \<in> set (item_addrs h c) \<union> R
         then enhance_item doc (rule_objects h a) else rule_objects h a)" for a
    using dj'[of a] by (simp add: IH(1) c1(1))
  then have "\<forall>a. rule_objects h2 a =
        (if a \<in> set (concat (map (\<lambda>(categoryKey, c). item_addrs h c) (p # refs)))
         then enhance_item doc (rule_objects h a) else rule_objects h a)"
    by (simp add: p R_def)
  moreover have "category_objects h2 = category_objects h" "results_objects h2 = results_objects h"
    using IH c1 by simp_all
  moreover have "foldl (\<lambda>h (categoryKey, c). enhance_items_at doc c h) h (p # refs) = h2"
    by (simp add: p h2_def)
  ultimately show ?case by simp
qed

lemma stringify_after_enhance:
  assumes r: "\<forall>a. rule_objects h2 a =
        (if a \<in> A then enhance_item doc (rule_objects h1 a) else rule_objects h1 a)"
    and c: "category_objects h2 = category_objects h1"
    and s: "set (item_addrs h1 c) \<subseteq> A"
  shows "stringify_category h2 c = enhance_items doc (stringify_category h1 c)"
proof (cases "items_field (category_objects h1 c)")
  case None
  then show ?thesis by (simp add: stringify_category_def enhance_items_def c)
next
  case (Some refs)
  with s have "snd ` set refs \<subseteq> A" by (simp add: item_addrs_def)
  then have "map (\<lambda>(itemKey, i). (itemKey, rule_objects h2 i)) refs =
        map (\<lambda>(itemKey, i). (itemKey, enhance_item doc (rule_objects h1 i))) refs"
    using r by (auto simp: image_subset_iff)
  then show ?thesis
    using Some by (simp add: stringify_category_def enhance_items_def c split_def)
qed

lemma recalculate_count_idem: "recalculate_count (recalculate_count category) = recalculate_count category"
  by (simp add: recalculate_count_def split: option.splits)

lemma stringify_recalculate_at:
  "stringify_category (recalculate_count_at c0 h) c =
     (if c = c0 then recalculate_count (stringify_category h c) else stringify_category h c)"
  by (auto simp: recalculate_count_at_def stringify_category_def recalculate_count_def split_def comp_def
      split: option.splits)

lemma recalculate_categories_content:
  "stringify_category (foldl (\<lambda>h (categoryKey, c). recalculate_count_at c h) h refs) c =
     (if c \<in> snd ` set refs then recalculate_count (stringify_category h c) else stringify_category h c) \<and>
   results_objects (foldl (\<lambda>h (categoryKey, c). recalculate_count_at c h) h refs) = results_objects h"
proof (induction refs arbitrary: h)
  case Nil
  then show ?case by simp
next
  case (Cons p refs)
  obtain categoryKey c0 where p: "p = (categoryKey, c0)" by (cases p)
  have ro: "results_objects (recalculate_count_at c0 h) = results_objects h"
    by (simp add: recalculate_count_at_def split: option.splits)
  show ?case
    using Cons.IH[of "recalculate_count_at c0 h"] ro
    by (auto simp: p stringify_recalculate_at recalculate_count_idem)
qed

lemma filteredCategories_stringify:
  "filteredCategories (stringify_results h e) =
     map (\<lambda>(categoryKey, c). (categoryKey, stringify_category h c)) (filtered_refs h e)"
  by (cases "categories_field (results_objects h e)")
     (auto simp: filteredCategories_def filtered_refs_def stringify_results_def map_of_map_snd
           split: option.splits)

lemma separate_two:
  assumes "separate h refs" "(k1, c1) \<in> set refs" "(k2, c2) \<in> set refs" "k1 \<noteq> k2"
  shows "separate h [(k1, c1), (k2, c2)]"
  using assms
proof (induction refs)
  case Nil
  then show ?case by simp
next
  case (Cons p refs)
  obtain k c where p: "p = (k, c)" by (cases p)
  from Cons.prems(1) p have sep: "separate h refs"
    and d1: "c \<notin> snd ` set refs"
    and d2: "distinct (item_addrs h c)"
    and d3: "set (item_addrs h c) \<inter> set (concat (map (\<lambda>(categoryKey, c). item_addrs h c) refs)) = {}"
    by (auto simp: separate_def)
  have inrest: "c' \<noteq> c \<and> distinct (item_addrs h c') \<and> set (item_addrs h c) \<inter> set (item_addrs h c') = {}"
    if "(k', c') \<in> set refs" for k' c'
  proof -
    from that d1 have "c' \<noteq> c" by force
    moreover from that sep have "distinct (item_addrs h c')"
      by (induction refs) (auto simp: separate_def)
    moreover from that have "set (item_addrs h c') \<subseteq> set (concat (map (\<lambda>(categoryKey, c). item_addrs h c) refs))"
      by force
    with d3 have "set (item_addrs h c) \<inter> set (item_addrs h c') = {}" by blast
    ultimately show ?thesis by simp
  qed
  consider (both) "(k1, c1) \<in> set refs" "(k2, c2) \<in> set refs"
    | (first) "(k1, c1) = (k, c)" "(k2, c2) \<in> set refs"
    | (second) "(k1, c1) \<in> set refs" "(k2, c2) = (k, c)"
    using Cons.prems(2,3,4) p by auto
  then show ?case
  proof cases
    case both
    then show ?thesis using Cons.IH[OF sep] Cons.prems(4) by simp
  next
    case first
    with inrest[of k2 c2] d2 show ?thesis by (auto simp: separate_def)
  next
    case second
    with inrest[of k1 c1] d2 show ?thesis by (auto simp: separate_def)
  qed
qed

lemma separate_one:
  assumes "separate h refs" "(k, c) \<in> set refs"
  shows "separate h [(k, c)]"
  using assms by (induction refs) (auto simp: separate_def)

lemma filtered_refs_separate:
  assumes "case categories_field (results_objects h e) of None \<Rightarrow> True | Some refs \<Rightarrow> separate h refs"
  shows "separate h (filtered_refs h e)"
proof (cases "categories_field (results_objects h e)")
  case None
  then show ?thesis by (simp add: filtered_refs_def separate_def)
next
  case (Some cats)
  with assms have sep: "separate h cats" by simp
  show ?thesis
  proof (cases "map_of cats key_error")
    case None
    show ?thesis
    proof (cases "map_of cats key_contrast")
      case None
      with \<open>map_of cats key_error = None\<close> Some show ?thesis by (simp add: filtered_refs_def separate_def)
    next
      case (Some c2)
      with \<open>map_of cats key_error = None\<close> \<open>categories_field (results_objects h e) = Some cats\<close>
      show ?thesis
        using separate_one[OF sep map_of_SomeD[OF Some]] by (simp add: filtered_refs_def)
    qed
  next
    case (Some c1)
    note e1 = Some
    show ?thesis
    proof (cases "map_of cats key_contrast")
      case None
      with e1 \<open>categories_field (results_objects h e) = Some cats\<close>
      show ?thesis
        using separate_one[OF sep map_of_SomeD[OF e1]] by (simp add: filtered_refs_def)
    next
      case (Some c2)
      with e1 \<open>categories_field (results_objects h e) = Some cats\<close>
      show ?thesis
        using separate_two[OF sep map_of_SomeD[OF e1] map_of_SomeD[OF Some] key_error_neq_contrast]
        by (simp add: filtered_refs_def)
    qed
  qed
qed

lemma enhance_in_heap_content:
  assumes "enhance_in_heap doc results h = (enhanced, h')"
  shows "stringify_results h' enhanced = enhanceResultsWithDOMInfo doc (stringify_results h results)"
proof -
  let ?r0 = "stringify_results h results"
  obtain e h1 where p: "parse_results ?r0 h = (e, h1)"
    by (cases "parse_results ?r0 h")
  note pc = parse_results_content[OF p]
  define F where "F = filtered_refs h1 e"
  define h2 where "h2 = foldl (\<lambda>h (categoryKey, c). enhance_items_at doc c h) h1 F"
  define h3 where "h3 = foldl (\<lambda>h (categoryKey, c). recalculate_count_at c h) h2 F"
  define h4 where "h4 = h3 \<lparr> results_objects := (results_objects h3)
                   (e := (results_objects h3 e) \<lparr> categories_field := Some F \<rparr>) \<rparr>"
  from assms p have out: "enhanced = e" "h' = h4"
    by (auto simp: enhance_in_heap_def Let_def F_def h2_def h3_def h4_def)
  have sepF: "separate h1 F"
    unfolding F_def using pc by (intro filtered_refs_separate) simp
  define A where "A = set (concat (map (\<lambda>(categoryKey, c). item_addrs h1 c) F))"
  from sepF have "distinct (concat (map (\<lambda>(categoryKey, c). item_addrs h1 c) F))"
    by (simp add: separate_def)
  from enhance_categories_content[OF this, of doc, folded h2_def A_def]
  have e2: "\<forall>a. rule_objects h2 a = (if a \<in> A then enhance_item doc (rule_objects h1 a) else rule_objects h1 a)"
    "category_objects h2 = category_objects h1" "results_objects h2 = results_objects h1"
    by simp_all
  have s2: "stringify_category h2 c = enhance_items doc (stringify_category h1 c)"
    if "(k, c) \<in> set F" for k c
  proof -
    from that have "set (item_addrs h1 c) \<subseteq> A" unfolding A_def by force
    with e2 show ?thesis by (intro stringify_after_enhance) simp_all
  qed
  from recalculate_categories_content[of h2 F, folded h3_def]
  have s3: "\<And>c. stringify_category h3 c =
       (if c \<in> snd ` set F then recalculate_count (stringify_category h2 c) else stringify_category h2 c)"
    and r3: "results_objects h3 = results_objects h2"
    by simp_all
  have s4: "stringify_category h4 c = stringify_category h3 c" for c
    by (simp add: h4_def stringify_category_def)
  have m: "map (\<lambda>(categoryKey, c). (categoryKey, stringify_category h4 c)) F =
        map (\<lambda>(categoryKey, c). (categoryKey, recalculate_count (enhance_items doc (stringify_category h1 c)))) F"
  proof (rule map_cong[OF refl])
    fix x assume x: "x \<in> set F"
    obtain k c where kc: "x = (k, c)" by (cases x)
    with x have "c \<in> snd ` set F" by force
    with s2[of k c] x kc show "(case x of (categoryKey, c) \<Rightarrow> (categoryKey, stringify_category h4 c)) =
        (case x of (categoryKey, c) \<Rightarrow> (categoryKey, recalculate_count (enhance_items doc (stringify_category h1 c))))"
      by (simp add: s4 s3)
  qed
  have "stringify_results h4 e =
        \<lparr> categories = Some (map (\<lambda>(categoryKey, c). (categoryKey, stringify_category h4 c)) F),
          statistics = statistics_field (results_objects h1 e) \<rparr>"
    by (simp add: stringify_results_def) (simp add: h4_def r3 e2)
  also have "\<dots> = (stringify_results h1 e)
       \<lparr> categories := Some (map (\<lambda>(categoryKey, c).
           (categoryKey, recalculate_count (enhance_items doc (stringify_category h1 c)))) F) \<rparr>"
    by (simp add: m stringify_results_def)
  also have "\<dots> = enhanceResultsWithDOMInfo doc (stringify_results h1 e)"
    by (simp add: enhanceResultsWithDOMInfo_def Let_def filteredCategories_stringify F_def
        split_def comp_def)
  finally show ?thesis using pc out by simp
qed

text \<open>
  Claim C10. The enhancer assigns to no object that was in the heap when it was called:
  every rule group, category and result object of that heap is the same afterwards, the
  result it returns is a new object, and what the raw result serializes to is unchanged.
  All its assignments go to the copy that \<open>JSON.parse(JSON.stringify(results))\<close> built,
  and the copy ends as the enhanced result of the raw one.
\<close>

theorem enhancer_leaves_raw_unchanged:
  assumes "enhance_in_heap doc results h = (enhanced, h')"
  shows "(\<forall>a < next_free h.
            rule_objects h' a = rule_objects h a \<and>
            category_objects h' a = category_objects h a \<and>
            results_objects h' a = results_objects h a) \<and>
         next_free h \<le> enhanced \<and> enhanced < next_free h' \<and>
         (results_allocated h results \<longrightarrow> stringify_results h' results = stringify_results h results) \<and>
         stringify_results h' enhanced = enhanceResultsWithDOMInfo doc (stringify_results h results)"
proof -
  note f = enhance_in_heap_frame[OF assms]
  then have "same_below (next_free h) h h'" by simp
  then have "results_allocated h results \<longrightarrow> stringify_results h' results = stringify_results h results"
    by (auto intro: stringify_same_below)
  with f enhance_in_heap_content[OF assms] show ?thesis by (simp add: same_below_def)
qed

lemma sample_heap_allocated: "results_allocated sample_heap 3"
  by (simp add: results_allocated_def category_allocated_def sample_heap_def empty_heap_def)

lemma sample_heap_raw:
  "stringify_results sample_heap 3 =
     \<lparr> categories = Some
         [ (str ''error'', \<lparr> cat_count = Some 5,
                              items = Some [ (str ''alt_missing'', sample_alt_missing),
                                             (str ''label_missing'', sample_broken) ] \<rparr>),
           (str ''contrast'', \<lparr> cat_count = Some 5,
                              items = Some [ (str ''alt_missing'', sample_alt_missing),
                                             (str ''label_missing'', sample_broken) ] \<rparr>) ],
       statistics = None \<rparr>"
  by (simp add: stringify_results_def stringify_category_def sample_heap_def empty_heap_def)

theorem enhancer_leaves_raw_unchanged_witness:
  "results_allocated sample_heap 3 \<and>
   stringify_results (snd (enhance_in_heap sample_doc 3 sample_heap)) 3 = stringify_results sample_heap 3 \<and>
   rule_objects (snd (enhance_in_heap sample_doc 3 sample_heap)) 0 = sample_alt_missing \<and>
   4 \<le> fst (enhance_in_heap sample_doc 3 sample_heap) \<and>
   stringify_results (snd (enhance_in_heap sample_doc 3 sample_heap))
       (fst (enhance_in_heap sample_doc 3 sample_heap))
     = enhanceResultsWithDOMInfo sample_doc (stringify_results sample_heap 3) \<and>
   category_at (stringify_results sample_heap 3) key_error
     = Some \<lparr> cat_count = Some 5,
              items = Some [ (str ''alt_missing'', sample_alt_missing),
                             (str ''label_missing'', sample_broken) ] \<rparr> \<and>
   category_at (stringify_results (snd (enhance_in_heap sample_doc 3 sample_heap))
       (fst (enhance_in_heap sample_doc 3 sample_heap))) key_error
     = Some \<lparr> cat_count = Some 4,
              items = Some [ (str ''alt_missing'', enhance_item sample_doc sample_alt_missing),
                             (str ''label_missing'', enhance_item sample_doc sample_broken) ] \<rparr>"
proof -
  note th = enhancer_leaves_raw_unchanged[where doc=sample_doc and results=3 and h=sample_heap, OF surjective_pairing]
  have n: "next_free sample_heap = 4" "rule_objects sample_heap 0 = sample_alt_missing"
    by (simp_all add: sample_heap_def empty_heap_def)
  have 1: "rule_count (enhance_item sample_doc sample_alt_missing) = Some 2"
    by (simp add: enhance_item_def sample_alt_missing_def no_item_def sample_new_Set)
  have 2: "rule_count (enhance_item sample_doc sample_broken) = Some 2"
    by (simp add: enhance_item_def sample_broken_def no_item_def sample_new_Set2)
  have c: "category_at (stringify_results sample_heap 3) key_error
     = Some \<lparr> cat_count = Some 5,
              items = Some [ (str ''alt_missing'', sample_alt_missing),
                             (str ''label_missing'', sample_broken) ] \<rparr>"
    by (simp add: sample_heap_raw category_at_def key_error_def)
  have e: "category_at (enhanceResultsWithDOMInfo sample_doc (stringify_results sample_heap 3)) key_error
     = Some \<lparr> cat_count = Some 4,
              items = Some [ (str ''alt_missing'', enhance_item sample_doc sample_alt_missing),
                             (str ''label_missing'', enhance_item sample_doc sample_broken) ] \<rparr>"
    by (simp add: category_at_enhance c recalculate_count_def enhance_items_def count_or_0_def 1 2)
  from th sample_heap_allocated n c e show ?thesis by simp
qed

end
